theory Spec2Isabelle
  imports Main "HOL-Library.AList" "HOL-Library.Char_ord" "HOL-Library.List_Lexorder"
begin

section \<open>Odo: a structured view over a flat value sequence\<close>

text \<open>
  The development embeds \<^verbatim>\<open>Odo.js\<close> and \<^verbatim>\<open>OdoError.js\<close>. An \<^verbatim>\<open>Odo\<close> instance
  is a JavaScript object whose own enumerable properties form the view and whose hidden
  slot \<^verbatim>\<open>i\<close> holds the value sequence, the field registry, the unused set and the
  transform cache. The embedding keeps that state in a record and the view as a tree of
  property lists.

  Scope of the embedding.
  \<^item> Values are plain data: numbers are integers (no NaN, no infinities, no fractions),
    strings are ASCII, function values are opaque tokens, objects carry no accessors and
    have distinct keys.
  \<^item> Transform functions are pure functions on plain values.
  \<^item> Property names that a JavaScript object inherits or that \<^verbatim>\<open>Odo\<close> uses itself
    (\<^verbatim>\<open>i\<close>, the method names, \<^verbatim>\<open>length\<close>, \<^verbatim>\<open>constructor\<close>, ...) are not modelled: a key
    that is not an own property of a container reads as \<^verbatim>\<open>undefined\<close>.
  \<^item> Property lists keep insertion order; JavaScript's rule that integer-like keys are
    enumerated first is not modelled.
  \<^item> The module is an ECMAScript module and therefore strict code: a failed assignment or
    deletion raises \<^verbatim>\<open>TypeError\<close>.
  \<^item> A call that raises returns only the error; the partly updated instance it would leave
    behind is not tracked.
\<close>

subsection \<open>JavaScript values\<close>

datatype jsval =
    JUndefined
  | JNull
  | JBool bool
  | JNum int
  | JStr string
  | JFn nat
  | JArr "jsval list"
  | JObj "(string \<times> jsval) list"

text \<open>\<^verbatim>\<open>!v\<close> is false exactly for the truthy values.\<close>

fun truthy :: "jsval \<Rightarrow> bool" where
  "truthy JUndefined = False"
| "truthy JNull = False"
| "truthy (JBool b) = b"
| "truthy (JNum n) = (n \<noteq> 0)"
| "truthy (JStr s) = (s \<noteq> [])"
| "truthy (JFn f) = True"
| "truthy (JArr vs) = True"
| "truthy (JObj kvs) = True"

definition is_digit :: "char \<Rightarrow> bool" where
  "is_digit c = (c \<in> set ''0123456789'')"

definition digit_val :: "char \<Rightarrow> nat" where
  "digit_val c = of_char c - 48"

definition dec_val :: "string \<Rightarrow> nat" where
  "dec_val s = foldl (\<lambda>n c. 10 * n + digit_val c) 0 s"

text \<open>
  A property key is an array index when it is the canonical decimal form of an integer
  below \<open>2^32 - 1\<close>.
\<close>

definition array_index :: "string \<Rightarrow> nat option" where
  "array_index s =
     (if s \<noteq> [] \<and> list_all is_digit s \<and> (length s = 1 \<or> hd s \<noteq> CHR ''0'')
         \<and> dec_val s < 4294967295
      then Some (dec_val s) else None)"

text \<open>
  \<^verbatim>\<open>values[i]\<close> for an integer \<open>i\<close>: an element when \<open>0 \<le> i < length\<close>, and
  \<^verbatim>\<open>undefined\<close> otherwise (an array has no property \<^verbatim>\<open>"-1"\<close>).
\<close>

definition arr_index :: "jsval list \<Rightarrow> int \<Rightarrow> jsval" where
  "arr_index vs i = (if 0 \<le> i \<and> i < int (length vs) then vs ! nat i else JUndefined)"

text \<open>\<^verbatim>\<open>Array.prototype.slice(start, end)\<close> with integer arguments.\<close>

definition slice_bound :: "nat \<Rightarrow> int \<Rightarrow> nat" where
  "slice_bound len i = (if i < 0 then nat (max (int len + i) 0) else nat (min i (int len)))"

definition js_slice :: "'a list \<Rightarrow> int \<Rightarrow> int \<Rightarrow> 'a list" where
  "js_slice xs s e =
     (let k = slice_bound (length xs) s; final = slice_bound (length xs) e
      in take (final - k) (drop k xs))"

text \<open>
  Reading a property of a plain value. \<open>None\<close> is the \<^verbatim>\<open>TypeError\<close> of reading a
  property of \<^verbatim>\<open>undefined\<close> or \<^verbatim>\<open>null\<close>.
\<close>

fun jsval_get :: "jsval \<Rightarrow> string \<Rightarrow> jsval option" where
  "jsval_get JUndefined k = None"
| "jsval_get JNull k = None"
| "jsval_get (JObj kvs) k = Some (case map_of kvs k of Some v \<Rightarrow> v | None \<Rightarrow> JUndefined)"
| "jsval_get (JArr vs) k =
     Some (case array_index k of
             Some i \<Rightarrow> if i < length vs then vs ! i else JUndefined
           | None \<Rightarrow> JUndefined)"
| "jsval_get (JStr s) k =
     Some (case array_index k of
             Some i \<Rightarrow> if i < length s then JStr [s ! i] else JUndefined
           | None \<Rightarrow> JUndefined)"
| "jsval_get (JBool b) k = Some JUndefined"
| "jsval_get (JNum n) k = Some JUndefined"
| "jsval_get (JFn f) k = Some JUndefined"

subsection \<open>Strings: \<^verbatim>\<open>split\<close>, \<^verbatim>\<open>join\<close>, and the global \<^verbatim>\<open>isFinite\<close>\<close>

text \<open>\<^verbatim>\<open>s.split('.')\<close>: empty segments are kept, and the result is never empty.\<close>

fun split_dot :: "string \<Rightarrow> string list" where
  "split_dot [] = [[]]"
| "split_dot (c # cs) =
     (if c = CHR ''.'' then [] # split_dot cs
      else (case split_dot cs of
              s # ss \<Rightarrow> (c # s) # ss
            | [] \<Rightarrow> [[c]]))"

text \<open>\<^verbatim>\<open>xs.join(sep)\<close>; \<^verbatim>\<open>String(xs)\<close> of an array of strings is \<^verbatim>\<open>xs.join(',')\<close>.\<close>

fun join :: "string \<Rightarrow> string list \<Rightarrow> string" where
  "join sep [] = []"
| "join sep [x] = x"
| "join sep (x # y # ys) = x @ sep @ join sep (y # ys)"

text \<open>
  The global \<^verbatim>\<open>isFinite(p)\<close> applied to a string converts it with the
  \<^verbatim>\<open>StringNumericLiteral\<close> grammar: surrounding white space is dropped, the empty string is
  \<open>0\<close>, a decimal literal may carry a sign, a fraction and an exponent, and an unsigned
  literal may be hexadecimal, octal or binary. The result is finite unless the text is not
  a literal, is \<^verbatim>\<open>Infinity\<close>, or rounds to infinity, which a double does from
  \<open>2^1024 - 2^970\<close> on.
\<close>

definition is_ws :: "char \<Rightarrow> bool" where
  "is_ws c = (c \<in> set [CHR 0x09, CHR 0x0A, CHR 0x0B, CHR 0x0C, CHR 0x0D, CHR 0x20])"

definition trim :: "string \<Rightarrow> string" where
  "trim s = rev (dropWhile is_ws (rev (dropWhile is_ws s)))"

definition overflow_bound :: nat where
  "overflow_bound = 2 ^ 1024 - 2 ^ 970"

text \<open>\<open>m * 10^e\<close> is below the overflow bound.\<close>

definition below_bound :: "nat \<Rightarrow> int \<Rightarrow> bool" where
  "below_bound m e =
     (if 0 \<le> e then m * 10 ^ nat e < overflow_bound
      else m < overflow_bound * 10 ^ nat (- e))"

definition radix_digit :: "nat \<Rightarrow> char \<Rightarrow> nat option" where
  "radix_digit b c =
     (let d = (if is_digit c then Some (digit_val c)
               else if c \<in> set ''abcdef'' then Some (of_char c - 87)
               else if c \<in> set ''ABCDEF'' then Some (of_char c - 55)
               else None)
      in case d of Some n \<Rightarrow> if n < b then Some n else None | None \<Rightarrow> None)"

definition finite_radix :: "nat \<Rightarrow> string \<Rightarrow> bool" where
  "finite_radix b s =
     (s \<noteq> [] \<and> list_all (\<lambda>c. radix_digit b c \<noteq> None) s
      \<and> foldl (\<lambda>n c. b * n + the (radix_digit b c)) 0 s < overflow_bound)"

definition finite_decimal :: "string \<Rightarrow> bool" where
  "finite_decimal s =
     (let ip = takeWhile is_digit s;
          r1 = dropWhile is_digit s;
          dot = (r1 \<noteq> [] \<and> hd r1 = CHR ''.'');
          fp = (if dot then takeWhile is_digit (tl r1) else []);
          r2 = (if dot then dropWhile is_digit (tl r1) else r1);
          m = dec_val (ip @ fp)
      in if ip = [] \<and> fp = [] then False
         else if r2 = [] then below_bound m (- int (length fp))
         else if hd r2 = CHR ''e'' \<or> hd r2 = CHR ''E''
         then (let r3 = tl r2;
                   signed = (r3 \<noteq> [] \<and> (hd r3 = CHR ''+'' \<or> hd r3 = CHR ''-''));
                   ds = (if signed then tl r3 else r3)
               in if ds \<noteq> [] \<and> list_all is_digit ds
                  then below_bound m
                         ((if signed \<and> hd r3 = CHR ''-'' then - int (dec_val ds)
                           else int (dec_val ds)) - int (length fp))
                  else False)
         else False)"

definition js_isFinite :: "string \<Rightarrow> bool" where
  "js_isFinite s =
     (let t = trim s in
      if t = [] then True
      else if take 2 t = ''0x'' \<or> take 2 t = ''0X'' then finite_radix 16 (drop 2 t)
      else if take 2 t = ''0o'' \<or> take 2 t = ''0O'' then finite_radix 8 (drop 2 t)
      else if take 2 t = ''0b'' \<or> take 2 t = ''0B'' then finite_radix 2 (drop 2 t)
      else (let u = (if hd t = CHR ''+'' \<or> hd t = CHR ''-'' then tl t else t)
            in finite_decimal u))"

subsection \<open>The view: containers and accessors\<close>

text \<open>
  An accessor installed by \<^verbatim>\<open>Object.defineProperty\<close> is a closure over the instance; it
  reads the value sequence and the transform cache current at the time of the read, and
  may fill the cache. A container is an object (\<^verbatim>\<open>{}\<close>) or an array (\<^verbatim>\<open>[]\<close>, with its
  \<^verbatim>\<open>length\<close>) together with its own properties.
\<close>

type_synonym cache = "nat \<rightharpoonup> jsval"

type_synonym getter = "jsval list \<Rightarrow> cache \<Rightarrow> jsval \<times> cache"

datatype node =
    NGetter getter
  | NObj "(string \<times> node) list"
  | NArr nat "(string \<times> node) list"

fun props :: "node \<Rightarrow> (string \<times> node) list" where
  "props (NGetter g) = []"
| "props (NObj ps) = ps"
| "props (NArr len ps) = ps"

fun is_container :: "node \<Rightarrow> bool" where
  "is_container (NGetter g) = False"
| "is_container (NObj ps) = True"
| "is_container (NArr len ps) = True"

fun is_array :: "node \<Rightarrow> bool" where
  "is_array (NArr len ps) = True"
| "is_array (NObj ps) = False"
| "is_array (NGetter g) = False"

text \<open>The node reached from \<open>n\<close> by following own properties along a list of keys.\<close>

fun node_at :: "node \<Rightarrow> string list \<Rightarrow> node option" where
  "node_at n [] = Some n"
| "node_at n (k # ks) =
     (case map_of (props n) k of
        None \<Rightarrow> None
      | Some c \<Rightarrow> node_at c ks)"

text \<open>
  Creating or redefining the own property \<open>k\<close> of a container (an array grows when \<open>k\<close>
  is an index at or beyond its length), and deleting it (an array keeps its length).
\<close>

fun put_prop :: "string \<Rightarrow> node \<Rightarrow> node \<Rightarrow> node" where
  "put_prop k v (NObj ps) = NObj (AList.update k v ps)"
| "put_prop k v (NArr len ps) =
     NArr (case array_index k of Some i \<Rightarrow> max len (Suc i) | None \<Rightarrow> len)
          (AList.update k v ps)"
| "put_prop k v (NGetter g) = NGetter g"

fun del_prop :: "string \<Rightarrow> node \<Rightarrow> node" where
  "del_prop k (NObj ps) = NObj (AList.delete k ps)"
| "del_prop k (NArr len ps) = NArr len (AList.delete k ps)"
| "del_prop k (NGetter g) = NGetter g"

text \<open>Applying \<open>f\<close> to the node at a path, in place.\<close>

fun upd_node :: "string list \<Rightarrow> (node \<Rightarrow> node) \<Rightarrow> node \<Rightarrow> node"
  and upd_props :: "string \<Rightarrow> string list \<Rightarrow> (node \<Rightarrow> node) \<Rightarrow>
                     (string \<times> node) list \<Rightarrow> (string \<times> node) list" where
  "upd_node [] f n = f n"
| "upd_node (k # ks) f (NGetter g) = NGetter g"
| "upd_node (k # ks) f (NObj ps) = NObj (upd_props k ks f ps)"
| "upd_node (k # ks) f (NArr len ps) = NArr len (upd_props k ks f ps)"
| "upd_props k ks f [] = []"
| "upd_props k ks f ((k', n) # ps) =
     (if k' = k then (k', upd_node ks f n) # ps
      else (k', n) # upd_props k ks f ps)"

text \<open>
  Forcing a node: every accessor is run, as \<^verbatim>\<open>JSON.stringify\<close> does when it walks the
  view. An array contributes the elements at its indices below its length, a hole reading
  as \<^verbatim>\<open>undefined\<close>; its other properties are not visited.
\<close>

fun force :: "node \<Rightarrow> jsval list \<Rightarrow> cache \<Rightarrow> jsval \<times> cache"
  and force_props :: "(string \<Rightarrow> bool) \<Rightarrow> (string \<times> node) list \<Rightarrow> jsval list \<Rightarrow> cache \<Rightarrow>
                       (string \<times> jsval) list \<times> cache" where
  "force (NGetter g) vs c = g vs c"
| "force (NObj ps) vs c =
     (case force_props (\<lambda>k. True) ps vs c of (kvs, c') \<Rightarrow> (JObj kvs, c'))"
| "force (NArr len ps) vs c =
     (case force_props (\<lambda>k. case array_index k of Some i \<Rightarrow> i < len | None \<Rightarrow> False) ps vs c of
        (kvs, c') \<Rightarrow>
          (JArr (map (\<lambda>i. case map_of (map (\<lambda>(k, v). (array_index k, v)) kvs) (Some i) of
                             Some v \<Rightarrow> v
                           | None \<Rightarrow> JUndefined) [0..<len]), c'))"
| "force_props keep [] vs c = ([], c)"
| "force_props keep ((k, n) # ps) vs c =
     (if keep k
      then (case force n vs c of
              (v, c1) \<Rightarrow> (case force_props keep ps vs c1 of
                             (kvs, c2) \<Rightarrow> ((k, v) # kvs, c2)))
      else force_props keep ps vs c)"

subsection \<open>The instance\<close>

text \<open>
  The record fields \<open>i_values\<close>, \<open>i_fields\<close>, \<open>i_unused\<close> and \<open>i_cached\<close> are
  \<^verbatim>\<open>this.i.values\<close>, \<^verbatim>\<open>this.i.fields\<close>, \<^verbatim>\<open>this.i.unused\<close> and \<^verbatim>\<open>this.i.cached\<close>;
  \<open>view\<close> holds the own enumerable properties of \<^verbatim>\<open>this\<close>.
  The unused set is a \<^verbatim>\<open>Set\<close> of JavaScript values; \<^verbatim>\<open>removeUnusedStructure\<close> tells
  strings from arrays of strings with \<^verbatim>\<open>Array.isArray\<close>. Sets keep insertion order.
\<close>

datatype ukey = UStr string | UArr "string list"

record odo =
  i_values :: "jsval list"
  i_fields :: "string list"
  i_unused :: "ukey list"
  i_cached :: cache
  view :: "(string \<times> node) list"

definition new_odo :: odo where
  "new_odo = \<lparr>i_values = [], i_fields = [], i_unused = [], i_cached = Map.empty, view = []\<rparr>"

definition set_add :: "'a \<Rightarrow> 'a list \<Rightarrow> 'a list" where
  "set_add x xs = (if x \<in> set xs then xs else xs @ [x])"

text \<open>
  An object a cursor can point to: \<^verbatim>\<open>this\<close> (\<open>InView []\<close>), a container inside the view
  (named by its path, since containers of the view are not shared), or a value that an
  accessor returned.
\<close>

datatype objref = InView "string list" | Detached jsval

record cursor =
  obj :: objref
  key :: string
  path :: "string list"

text \<open>
  \<open>OdoError message cursor field\<close> is \<^verbatim>\<open>new OdoError(message, { cursor, field })\<close>.
  \<open>OutOfModel\<close> marks a run that writes into an object returned by an accessor (an element
  of the value sequence or a transform result), which would need a heap for values.
\<close>

datatype error = OdoError string cursor string | TypeError | OutOfModel

definition root :: "odo \<Rightarrow> node" where
  "root st = NObj (view st)"

definition with_root :: "odo \<Rightarrow> node \<Rightarrow> odo" where
  "with_root st n = st\<lparr>view := props n\<rparr>"

text \<open>\<^verbatim>\<open>obj[k]\<close>: a container of the view is returned by reference, an accessor is run.\<close>

definition get_prop :: "odo \<Rightarrow> objref \<Rightarrow> string \<Rightarrow> error + (objref \<times> odo)" where
  "get_prop st ob k =
     (case ob of
        InView p \<Rightarrow>
          (case node_at (root st) p of
             None \<Rightarrow> Inl OutOfModel
           | Some (NGetter g) \<Rightarrow> Inl OutOfModel
           | Some c \<Rightarrow>
               (case map_of (props c) k of
                  None \<Rightarrow> Inr (Detached JUndefined, st)
                | Some (NGetter g) \<Rightarrow>
                    (case g (i_values st) (i_cached st) of
                       (v, c') \<Rightarrow> Inr (Detached v, st\<lparr>i_cached := c'\<rparr>))
                | Some n \<Rightarrow> Inr (InView (p @ [k]), st)))
      | Detached v \<Rightarrow>
          (case jsval_get v k of
             None \<Rightarrow> Inl TypeError
           | Some w \<Rightarrow> Inr (Detached w, st)))"

text \<open>
  \<^verbatim>\<open>obj[k] = n\<close> for a fresh container \<open>n\<close>: an accessor without a setter and a primitive
  receiver both raise in strict code.
\<close>

definition set_prop :: "odo \<Rightarrow> objref \<Rightarrow> string \<Rightarrow> node \<Rightarrow> error + odo" where
  "set_prop st ob k n =
     (case ob of
        InView p \<Rightarrow>
          (case node_at (root st) p of
             None \<Rightarrow> Inl OutOfModel
           | Some (NGetter g) \<Rightarrow> Inl OutOfModel
           | Some c \<Rightarrow>
               (case map_of (props c) k of
                  Some (NGetter g) \<Rightarrow> Inl TypeError
                | _ \<Rightarrow> Inr (with_root st (upd_node p (put_prop k n) (root st)))))
      | Detached (JFn f) \<Rightarrow> Inl OutOfModel
      | Detached (JArr vs) \<Rightarrow> Inl OutOfModel
      | Detached (JObj kvs) \<Rightarrow> Inl OutOfModel
      | Detached v \<Rightarrow> Inl TypeError)"

text \<open>
  \<^verbatim>\<open>Object.defineProperty(obj, k, { get: g, enumerable: true, configurable: true })\<close>.
  Every property this class creates is configurable, so the definition replaces what is
  there; a primitive receiver raises.
\<close>

definition defineProperty :: "odo \<Rightarrow> objref \<Rightarrow> string \<Rightarrow> getter \<Rightarrow> error + odo" where
  "defineProperty st ob k g =
     (case ob of
        InView p \<Rightarrow>
          (case node_at (root st) p of
             None \<Rightarrow> Inl OutOfModel
           | Some (NGetter g') \<Rightarrow> Inl OutOfModel
           | Some c \<Rightarrow> Inr (with_root st (upd_node p (put_prop k (NGetter g)) (root st))))
      | Detached (JFn f) \<Rightarrow> Inl OutOfModel
      | Detached (JArr vs) \<Rightarrow> Inl OutOfModel
      | Detached (JObj kvs) \<Rightarrow> Inl OutOfModel
      | Detached v \<Rightarrow> Inl TypeError)"

text \<open>
  \<^verbatim>\<open>delete obj[k]\<close>: nothing happens on a number or a boolean; a character of a string
  is not configurable.
\<close>

definition delete_prop :: "odo \<Rightarrow> objref \<Rightarrow> string \<Rightarrow> error + odo" where
  "delete_prop st ob k =
     (case ob of
        InView p \<Rightarrow>
          (case node_at (root st) p of
             None \<Rightarrow> Inl OutOfModel
           | Some (NGetter g) \<Rightarrow> Inl OutOfModel
           | Some c \<Rightarrow> Inr (with_root st (upd_node p (del_prop k) (root st))))
      | Detached JUndefined \<Rightarrow> Inl TypeError
      | Detached JNull \<Rightarrow> Inl TypeError
      | Detached (JBool b) \<Rightarrow> Inr st
      | Detached (JNum n) \<Rightarrow> Inr st
      | Detached (JStr s) \<Rightarrow>
          (case array_index k of
             Some i \<Rightarrow> if i < length s then Inl TypeError else Inr st
           | None \<Rightarrow> Inr st)
      | Detached v \<Rightarrow> Inl OutOfModel)"

subsection \<open>Range specifications and accessors\<close>

text \<open>
  A range specification is a function, a number, or an array \<^verbatim>\<open>[i, fn]\<close>, \<^verbatim>\<open>[s, e]\<close> or
  \<^verbatim>\<open>[s, e, fn]\<close>. The cache is a \<^verbatim>\<open>Map\<close> keyed by the array object itself, so an array
  specification with a transform carries the identity of its array.
\<close>

type_synonym transform = "jsval \<Rightarrow> jsval"

datatype range =
    RFn transform
  | RIndex int
  | RIndexFn nat int transform
  | RSliceFn nat int int transform
  | RSlice int int

text \<open>
  The value found at the slot before the accessor is installed: a plain value, or a
  container of the view, which the closure keeps by reference.
\<close>

datatype existing = ExValue jsval | ExObject node

definition cachedValue :: "(jsval list \<Rightarrow> jsval) \<Rightarrow> nat \<Rightarrow> getter" where
  "cachedValue valueFn cacheKey =
     (\<lambda>vs c. case c cacheKey of
                Some v \<Rightarrow> (v, c)
              | None \<Rightarrow> (let val = valueFn vs in (val, c(cacheKey \<mapsto> val))))"

fun convertRangeToGetter :: "range \<Rightarrow> existing \<Rightarrow> getter" where
  "convertRangeToGetter (RFn f) existingValue =
     (\<lambda>vs c. case existingValue of
                ExValue v \<Rightarrow> (f v, c)
              | ExObject n \<Rightarrow> (case force n vs c of (v, c') \<Rightarrow> (f v, c')))"
| "convertRangeToGetter (RIndex i) existingValue =
     (\<lambda>vs c. (arr_index vs i, c))"
| "convertRangeToGetter (RIndexFn r i f) existingValue =
     cachedValue (\<lambda>vs. f (arr_index vs i)) r"
| "convertRangeToGetter (RSliceFn r s e f) existingValue =
     cachedValue (\<lambda>vs. f (JArr (js_slice vs s e))) r"
| "convertRangeToGetter (RSlice s e) existingValue =
     (\<lambda>vs c. (JArr (js_slice vs s e), c))"

subsection \<open>The methods\<close>

definition setValues :: "odo \<Rightarrow> jsval list \<Rightarrow> odo" where
  "setValues st vs = st\<lparr>i_values := vs, i_cached := Map.empty\<rparr>"

fun ref_truthy :: "objref \<Rightarrow> bool" where
  "ref_truthy (InView p) = True"
| "ref_truthy (Detached v) = truthy v"

definition error_message :: "string \<Rightarrow> string list \<Rightarrow> string" where
  "error_message field pth =
     [CHR 0x22] @ field @ [CHR 0x22]
     @ '' may be misdefined, encountered undefined parent for path elements ''
     @ [CHR 0x22] @ join '','' pth @ [CHR 0x22]"

text \<open>The loop of \<^verbatim>\<open>_getCursorToEndOfPath\<close>; the property is read for the test and again
  for the step.\<close>

fun cursor_loop :: "odo \<Rightarrow> cursor \<Rightarrow> string list \<Rightarrow> error + (cursor \<times> odo)" where
  "cursor_loop st cur [] = Inr (cur, st)"
| "cursor_loop st cur (field # rest) =
     (case get_prop st (obj cur) field of
        Inl e \<Rightarrow> Inl e
      | Inr (v, st1) \<Rightarrow>
          if \<not> ref_truthy v
          then Inl (OdoError (error_message field (path cur)) cur field)
          else (case get_prop st1 (obj cur) field of
                  Inl e \<Rightarrow> Inl e
                | Inr (v', st2) \<Rightarrow> cursor_loop st2 (cur\<lparr>obj := v'\<rparr>) rest))"

text \<open>\<^verbatim>\<open>path.pop()\<close> of an empty array is \<^verbatim>\<open>undefined\<close>, the key \<^verbatim>\<open>"undefined"\<close>.\<close>

definition pop_key :: "string list \<Rightarrow> string" where
  "pop_key pth = (if pth = [] then ''undefined'' else last pth)"

definition getCursorToEndOfPath :: "odo \<Rightarrow> string list \<Rightarrow> error + (cursor \<times> odo)" where
  "getCursorToEndOfPath st pth =
     (let lastKey = pop_key pth;
          popped = butlast pth
      in cursor_loop st \<lparr>obj = InView [], key = lastKey, path = popped\<rparr> popped)"

text \<open>
  The loop of \<^verbatim>\<open>_ensurePathStructure\<close> over the path without its last key. \<open>pth\<close> is that
  shortened path, \<open>index\<close> counts the keys done, and \<open>rebuiltPath\<close> grows by the whole
  of \<open>pth\<close>, turned into a string, in every round. \<^verbatim>\<open>isPathNumber[index + 1]\<close> is
  \<^verbatim>\<open>undefined\<close> beyond the end of \<open>pth\<close>.
\<close>

fun ensure_loop ::
  "string list \<Rightarrow> odo \<Rightarrow> objref \<Rightarrow> nat \<Rightarrow> string \<Rightarrow> string list \<Rightarrow> error + (objref \<times> odo)" where
  "ensure_loop pth st ob index rebuiltPath [] = Inr (ob, st)"
| "ensure_loop pth st ob index rebuiltPath (k # ks) =
     (case get_prop st ob k of
        Inl e \<Rightarrow> Inl e
      | Inr (v, st1) \<Rightarrow>
          (case (if v = Detached JUndefined
                 then (let isNextKeyNumeric =
                             (Suc index < length pth \<and> js_isFinite (pth ! Suc index))
                       in set_prop st1 ob k (if isNextKeyNumeric then NArr 0 [] else NObj []))
                 else Inr st1) of
             Inl e \<Rightarrow> Inl e
           | Inr st2 \<Rightarrow>
               (case get_prop st2 ob k of
                  Inl e \<Rightarrow> Inl e
                | Inr (ob', st3) \<Rightarrow>
                    (let rebuiltPath' =
                           rebuiltPath @ (if rebuiltPath \<noteq> [] then ''.'' else []) @ join '','' pth;
                         st4 = (if UStr rebuiltPath' \<in> set (i_unused st3)
                                then st3\<lparr>i_unused := removeAll (UStr rebuiltPath') (i_unused st3)\<rparr>
                                else st3)
                     in ensure_loop pth st4 ob' (Suc index) rebuiltPath' ks))))"

definition ensurePathStructure :: "odo \<Rightarrow> string list \<Rightarrow> error + ((objref \<times> string) \<times> odo)" where
  "ensurePathStructure st pth =
     (let lastKey = pop_key pth;
          popped = butlast pth
      in case ensure_loop popped st (InView []) 0 [] popped of
           Inl e \<Rightarrow> Inl e
         | Inr (ob, st') \<Rightarrow> Inr ((ob, lastKey), st'))"

definition resolve_existing :: "odo \<Rightarrow> objref \<Rightarrow> existing" where
  "resolve_existing st r =
     (case r of
        Detached v \<Rightarrow> ExValue v
      | InView p \<Rightarrow> (case node_at (root st) p of
                       Some n \<Rightarrow> ExObject n
                     | None \<Rightarrow> ExValue JUndefined))"

text \<open>
  The entries of the structure object, greatest key first. The keys of an object are
  distinct, so the comparator of the source leaves no two entries unordered.
\<close>

definition sort_entries :: "(string \<times> range) list \<Rightarrow> (string \<times> range) list" where
  "sort_entries es = rev (sort_key fst es)"

fun add_entries :: "odo \<Rightarrow> (string \<times> range) list \<Rightarrow> error + odo" where
  "add_entries st [] = Inr st"
| "add_entries st ((fieldName, rng) # es) =
     (let isPath = (CHR ''.'' \<in> set fieldName);
          pth = split_dot fieldName;
          st0 = st\<lparr>i_fields := set_add fieldName (i_fields st)\<rparr>
      in case (if isPath then ensurePathStructure st0 pth
               else Inr ((InView [], fieldName), st0)) of
           Inl e \<Rightarrow> Inl e
         | Inr ((ob, k), st1) \<Rightarrow>
             (case get_prop st1 ob k of
                Inl e \<Rightarrow> Inl e
              | Inr (ex, st2) \<Rightarrow>
                  (case defineProperty st2 ob k
                          (convertRangeToGetter rng (resolve_existing st2 ex)) of
                     Inl e \<Rightarrow> Inl e
                   | Inr st3 \<Rightarrow> add_entries st3 es)))"

definition addStructure :: "odo \<Rightarrow> (string \<times> range) list \<Rightarrow> error + odo" where
  "addStructure st s = add_entries st (sort_entries s)"

fun reset_loop :: "odo \<Rightarrow> string list \<Rightarrow> error + odo" where
  "reset_loop st [] = Inr st"
| "reset_loop st (fieldName # rest) =
     (let isPath = (CHR ''.'' \<in> set fieldName);
          pth = split_dot fieldName
      in if isPath
         then (case getCursorToEndOfPath st pth of
                 Inl e \<Rightarrow> Inl e
               | Inr (cur, st1) \<Rightarrow>
                   (let unusedPath = join ''.'' (path cur);
                        st2 = st1\<lparr>i_unused := set_add (UStr unusedPath) (i_unused st1)\<rparr>
                    in case delete_prop st2 (obj cur) (key cur) of
                         Inl e \<Rightarrow> Inl e
                       | Inr st3 \<Rightarrow> reset_loop st3 rest))
         else (case delete_prop st (InView []) fieldName of
                 Inl e \<Rightarrow> Inl e
               | Inr st1 \<Rightarrow> reset_loop st1 rest))"

definition resetStructure :: "odo \<Rightarrow> error + odo" where
  "resetStructure st =
     (case reset_loop (st\<lparr>i_unused := [], i_cached := Map.empty\<rparr>) (i_fields st) of
        Inl e \<Rightarrow> Inl e
      | Inr st1 \<Rightarrow> Inr (st1\<lparr>i_fields := []\<rparr>))"

fun remove_loop :: "odo \<Rightarrow> ukey list \<Rightarrow> error + odo" where
  "remove_loop st [] = Inr st"
| "remove_loop st (UArr field # rest) =
     (case getCursorToEndOfPath st field of
        Inl e \<Rightarrow> Inl e
      | Inr (cur, st1) \<Rightarrow>
          (case delete_prop st1 (obj cur) (key cur) of
             Inl e \<Rightarrow> Inl e
           | Inr st2 \<Rightarrow> remove_loop st2 rest))"
| "remove_loop st (UStr field # rest) =
     (case delete_prop st (InView []) field of
        Inl e \<Rightarrow> Inl e
      | Inr st1 \<Rightarrow> remove_loop st1 rest)"

definition removeUnusedStructure :: "odo \<Rightarrow> error + odo" where
  "removeUnusedStructure st =
     (case remove_loop st (i_unused st) of
        Inl e \<Rightarrow> Inl e
      | Inr st1 \<Rightarrow> Inr (st1\<lparr>i_unused := []\<rparr>))"

definition setStructure :: "odo \<Rightarrow> (string \<times> range) list \<Rightarrow> error + odo" where
  "setStructure st s =
     (case resetStructure st of
        Inl e \<Rightarrow> Inl e
      | Inr st1 \<Rightarrow>
          (case addStructure st1 s of
             Inl e \<Rightarrow> Inl e
           | Inr st2 \<Rightarrow> removeUnusedStructure st2))"

text \<open>
  \<^verbatim>\<open>JSON.parse(JSON.stringify(v))\<close> on a forced value: a member of an object whose value
  is \<^verbatim>\<open>undefined\<close> or a function is left out, an element of an array with such a value
  becomes \<^verbatim>\<open>null\<close>.
\<close>

fun serializable :: "jsval \<Rightarrow> bool" where
  "serializable JUndefined = False"
| "serializable (JFn f) = False"
| "serializable JNull = True"
| "serializable (JBool b) = True"
| "serializable (JNum n) = True"
| "serializable (JStr s) = True"
| "serializable (JArr vs) = True"
| "serializable (JObj kvs) = True"

fun to_json :: "jsval \<Rightarrow> jsval"
  and to_json_members :: "(string \<times> jsval) list \<Rightarrow> (string \<times> jsval) list"
  and to_json_elements :: "jsval list \<Rightarrow> jsval list" where
  "to_json (JObj kvs) = JObj (to_json_members kvs)"
| "to_json (JArr vs) = JArr (to_json_elements vs)"
| "to_json JUndefined = JUndefined"
| "to_json JNull = JNull"
| "to_json (JBool b) = JBool b"
| "to_json (JNum n) = JNum n"
| "to_json (JStr s) = JStr s"
| "to_json (JFn f) = JFn f"
| "to_json_members [] = []"
| "to_json_members ((k, v) # kvs) =
     (if serializable v then (k, to_json v) # to_json_members kvs
      else to_json_members kvs)"
| "to_json_elements [] = []"
| "to_json_elements (v # vs) =
     (if serializable v then to_json v else JNull) # to_json_elements vs"

text \<open>\<^verbatim>\<open>export()\<close> returns the snapshot; forcing the view may fill the cache.\<close>

definition export :: "odo \<Rightarrow> jsval \<times> odo" where
  "export st =
     (case force (root st) (i_values st) (i_cached st) of
        (v, c) \<Rightarrow> (to_json v, st\<lparr>i_cached := c\<rparr>))"

subsection \<open>Reading the view\<close>

text \<open>
  A consumer reads a field by property access, \<^verbatim>\<open>o.position.x\<close>: every step is a
  property read, and the last one runs the accessor.
\<close>

fun read_path :: "odo \<Rightarrow> objref \<Rightarrow> string list \<Rightarrow> error + (objref \<times> odo)" where
  "read_path st ob [] = Inr (ob, st)"
| "read_path st ob (k # ks) =
     (case get_prop st ob k of
        Inl e \<Rightarrow> Inl e
      | Inr (v, st') \<Rightarrow> read_path st' v ks)"

definition read_field :: "odo \<Rightarrow> string \<Rightarrow> error + (objref \<times> odo)" where
  "read_field st fieldName = read_path st (InView []) (split_dot fieldName)"

text \<open>Sequencing of calls that may raise, and the first component of a result.\<close>

definition and_then :: "error + 'a \<Rightarrow> ('a \<Rightarrow> error + 'b) \<Rightarrow> error + 'b" where
  "and_then r f = (case r of Inl e \<Rightarrow> Inl e | Inr x \<Rightarrow> f x)"

definition returned :: "error + ('a \<times> odo) \<Rightarrow> error + 'a" where
  "returned r = (case r of Inl e \<Rightarrow> Inl e | Inr (x, st) \<Rightarrow> Inr x)"

subsection \<open>Notions used in the statements\<close>

text \<open>The paths of the view at which an accessor is installed.\<close>

definition accessor_paths :: "odo \<Rightarrow> string list set" where
  "accessor_paths st = {q. \<exists>g. node_at (root st) q = Some (NGetter g)}"

text \<open>
  For a specification with a transform: the value the transform computes from a value
  sequence (the \<^verbatim>\<open>valueFn\<close> handed to \<^verbatim>\<open>_cachedValue\<close>), and the cache key, which is
  the specification array itself.
\<close>

definition fresh_value :: "range \<Rightarrow> jsval list \<Rightarrow> jsval" where
  "fresh_value rg vs =
     (case rg of
        RIndexFn r i f \<Rightarrow> f (arr_index vs i)
      | RSliceFn r s e f \<Rightarrow> f (JArr (js_slice vs s e))
      | _ \<Rightarrow> JUndefined)"

definition cache_key :: "range \<Rightarrow> nat option" where
  "cache_key rg =
     (case rg of
        RIndexFn r i f \<Rightarrow> Some r
      | RSliceFn r s e f \<Rightarrow> Some r
      | _ \<Rightarrow> None)"

text \<open>
  The container \<^verbatim>\<open>_ensurePathStructure\<close> creates for a missing key in round \<open>index\<close>:
  \<^verbatim>\<open>isPathNumber[index + 1] ? [] : {}\<close>.
\<close>

definition next_container :: "string list \<Rightarrow> nat \<Rightarrow> node" where
  "next_container pth index =
     (if Suc index < length pth \<and> js_isFinite (pth ! Suc index) then NArr 0 [] else NObj [])"


text \<open>
  The calls a client can make, and a run of calls that all return. Reading a field and
  \<^verbatim>\<open>export()\<close> leave everything but the cache as it is.
\<close>

datatype op =
    SetValues "jsval list"
  | AddStructure "(string \<times> range) list"
  | ResetStructure
  | SetStructure "(string \<times> range) list"
  | RemoveUnusedStructure
  | ReadField string
  | Export

fun run_op :: "odo \<Rightarrow> op \<Rightarrow> error + odo" where
  "run_op st (SetValues vs) = Inr (setValues st vs)"
| "run_op st (AddStructure s) = addStructure st s"
| "run_op st ResetStructure = resetStructure st"
| "run_op st (SetStructure s) = setStructure st s"
| "run_op st RemoveUnusedStructure = removeUnusedStructure st"
| "run_op st (ReadField fieldName) =
     (case read_field st fieldName of Inl e \<Rightarrow> Inl e | Inr (v, st') \<Rightarrow> Inr st')"
| "run_op st Export = Inr (snd (export st))"

fun run_ops :: "odo \<Rightarrow> op list \<Rightarrow> error + odo" where
  "run_ops st [] = Inr st"
| "run_ops st (x # xs) =
     (case run_op st x of
        Inl e \<Rightarrow> Inl e
      | Inr st' \<Rightarrow> run_ops st' xs)"

fun is_ustr :: "ukey \<Rightarrow> bool" where
  "is_ustr (UStr s) = True"
| "is_ustr (UArr p) = False"

text \<open>The prefix \<^verbatim>\<open>resetStructure\<close> records for a field with a path.\<close>

definition unused_mark :: "string \<Rightarrow> ukey" where
  "unused_mark fieldName = UStr (join ''.'' (butlast (split_dot fieldName)))"

text \<open>
  The value found in a plain value by following member names and element indices, and
  the paths of the view that \<^verbatim>\<open>JSON.stringify\<close> walks: below an array only the indices
  under its length.
\<close>

fun jsval_at :: "jsval \<Rightarrow> string list \<Rightarrow> jsval option" where
  "jsval_at v [] = Some v"
| "jsval_at v (k # ks) =
     (case v of
        JObj kvs \<Rightarrow> (case map_of kvs k of None \<Rightarrow> None | Some w \<Rightarrow> jsval_at w ks)
      | JArr xs \<Rightarrow>
          (case array_index k of
             Some i \<Rightarrow> if i < length xs then jsval_at (xs ! i) ks else None
           | None \<Rightarrow> None)
      | _ \<Rightarrow> None)"


section \<open>Properties\<close>

text \<open>The definitions that evaluate a concrete run.\<close>

lemmas odo_defs = addStructure_def sort_entries_def setValues_def new_odo_def
  ensurePathStructure_def get_prop_def set_prop_def defineProperty_def delete_prop_def
  root_def with_root_def resolve_existing_def set_add_def pop_key_def read_field_def
  and_then_def returned_def getCursorToEndOfPath_def resetStructure_def
  removeUnusedStructure_def setStructure_def arr_index_def Let_def export_def
  error_message_def cachedValue_def

lemmas isFinite_defs = js_isFinite_def trim_def is_ws_def finite_decimal_def is_digit_def
  dec_val_def digit_val_def below_bound_def overflow_bound_def finite_radix_def radix_digit_def


subsection \<open>Paths and trees\<close>

lemma split_dot_nonempty: "split_dot s \<noteq> []"
  by (induction s) (auto split: list.splits)

lemma split_dot_nodot: "CHR ''.'' \<notin> set s \<Longrightarrow> split_dot s = [s]"
  by (induction s) (auto split: list.splits)

lemma split_dot_dot: "CHR ''.'' \<in> set s \<Longrightarrow> 2 \<le> length (split_dot s)"
proof (induction s)
  case Nil
  then show ?case by simp
next
  case (Cons c cs)
  show ?case
  proof (cases "c = CHR ''.''")
    case True
    then show ?thesis using split_dot_nonempty [of cs] by (cases "split_dot cs") auto
  next
    case False
    with Cons show ?thesis by (auto split: list.splits)
  qed
qed

lemma map_of_upd_props:
  "map_of (upd_props k ks f ps) k' =
     (if k' = k then map_option (upd_node ks f) (map_of ps k) else map_of ps k')"
  by (induction ps) auto

lemma props_upd_node_Cons:
  "props (upd_node (k # ks) f n) = upd_props k ks f (props n)"
  by (cases n) auto

lemma is_container_upd_node_Cons [simp]:
  "is_container (upd_node (k # ks) f n) = is_container n"
  by (cases n) auto

lemma node_at_upd_same:
  "node_at n p = Some c \<Longrightarrow> node_at (upd_node p f n) (p @ r) = node_at (f c) r"
proof (induction p arbitrary: n)
  case Nil
  then show ?case by simp
next
  case (Cons k ks)
  then show ?case
    by (auto simp: props_upd_node_Cons map_of_upd_props split: option.splits)
qed

lemma upd_node_absent: "node_at n p = None \<Longrightarrow> upd_node p f n = n"
  and upd_props_absent: "(case map_of ps k of None \<Rightarrow> True | Some c \<Rightarrow> node_at c ks = None) \<Longrightarrow> upd_props k ks f ps = ps"
   apply (induction p f n and k ks f ps rule: upd_node_upd_props.induct)
  apply (auto split: option.splits if_splits)
  done

lemma node_at_upd_getter_other:
  "node_at (upd_node p f n) q = Some (NGetter g) \<Longrightarrow> \<forall>r. q \<noteq> p @ r \<Longrightarrow>
   node_at n q = Some (NGetter g)"
proof (induction q arbitrary: p n)
  case Nil
  then show ?case by (cases p; cases n) auto
next
  case (Cons k q)
  show ?case
  proof (cases p)
    case Nil
    with Cons.prems show ?thesis by simp
  next
    case (Cons k' p')
    show ?thesis
    proof (cases "k' = k")
      case True
      from Cons.prems(2) have nr: "\<forall>r. q \<noteq> p' @ r" using Cons True by auto
      from Cons.prems(1) show ?thesis
        using Cons.IH [OF _ nr] Cons True
        by (auto simp: props_upd_node_Cons map_of_upd_props split: option.splits)
    next
      case False
      with Cons.prems(1) show ?thesis using Cons
        by (auto simp: props_upd_node_Cons map_of_upd_props split: option.splits)
    qed
  qed
qed

lemma get_prop_frame:
  "get_prop st ob k = Inr (v, st') \<Longrightarrow>
   view st' = view st \<and> i_values st' = i_values st \<and> i_fields st' = i_fields st
   \<and> i_unused st' = i_unused st"
  by (auto simp: get_prop_def split: objref.splits option.splits node.splits prod.splits)

lemma get_prop_root:
  "get_prop st ob k = Inr (v, st') \<Longrightarrow> root st' = root st"
  by (simp add: root_def get_prop_frame)

lemma root_cached [simp]: "root (st\<lparr>i_cached := c\<rparr>) = root st"
  by (simp add: root_def)

lemma root_fields [simp]: "root (st\<lparr>i_fields := c\<rparr>) = root st"
  by (simp add: root_def)

lemma root_unused [simp]: "root (st\<lparr>i_unused := c\<rparr>) = root st"
  by (simp add: root_def)

lemma root_values [simp]: "root (st\<lparr>i_values := c\<rparr>) = root st"
  by (simp add: root_def)

lemma node_at_snoc:
  "node_at n (p @ [k]) = (case node_at n p of None \<Rightarrow> None | Some c \<Rightarrow> map_of (props c) k)"
  by (induction p arbitrary: n) (auto split: option.splits)

lemma get_prop_InView:
  "get_prop st (InView p) k = Inr (InView q, st') \<Longrightarrow>
   q = p @ [k] \<and> st' = st \<and> (\<exists>c. node_at (root st) (p @ [k]) = Some c \<and> is_container c)"
  by (auto simp: get_prop_def node_at_snoc split: option.splits node.splits prod.splits)

lemma get_prop_Detached:
  "get_prop st (Detached v) k = Inr (r, st') \<Longrightarrow> \<exists>w. r = Detached w"
  by (auto simp: get_prop_def split: option.splits)

lemma upd_root_obj: "\<exists>ps. upd_node p (put_prop k v) (NObj vw) = NObj ps"
  by (cases p) auto

lemma del_root_obj: "\<exists>ps. upd_node p (del_prop k) (NObj vw) = NObj ps"
  by (cases p) auto

lemma root_with_root_put [simp]:
  "root (with_root st (upd_node p (put_prop k v) (root st))) = upd_node p (put_prop k v) (root st)"
  using upd_root_obj [of p k v "view st"] by (auto simp: root_def with_root_def)

lemma root_with_root_del [simp]:
  "root (with_root st (upd_node p (del_prop k) (root st))) = upd_node p (del_prop k) (root st)"
  using del_root_obj [of p k "view st"] by (auto simp: root_def with_root_def)

lemma set_prop_Inr:
  "set_prop st ob k n = Inr st' \<Longrightarrow>
   \<exists>p c. ob = InView p \<and> node_at (root st) p = Some c \<and> is_container c
        \<and> (\<forall>g. map_of (props c) k \<noteq> Some (NGetter g))
        \<and> st' = with_root st (upd_node p (put_prop k n) (root st))"
  by (auto simp: set_prop_def split: objref.splits option.splits node.splits jsval.splits)

lemma defineProperty_Inr:
  "defineProperty st ob k g = Inr st' \<Longrightarrow>
   \<exists>p c. ob = InView p \<and> node_at (root st) p = Some c \<and> is_container c
        \<and> st' = with_root st (upd_node p (put_prop k (NGetter g)) (root st))"
  by (auto simp: defineProperty_def split: objref.splits option.splits node.splits jsval.splits)

lemma delete_prop_Inr:
  "delete_prop st ob k = Inr st' \<Longrightarrow>
   (\<exists>p c. ob = InView p \<and> node_at (root st) p = Some c \<and> is_container c
        \<and> st' = with_root st (upd_node p (del_prop k) (root st)))
   \<or> ((\<exists>v. ob = Detached v) \<and> st' = st)"
  by (auto simp: delete_prop_def split: objref.splits option.splits node.splits jsval.splits if_splits)

lemma node_at_Cons_container: "node_at n (k # r) = Some x \<Longrightarrow> is_container n"
  by (cases n) auto

lemma read_path_view:
  "node_at (root st) p = Some c \<Longrightarrow> is_container c \<Longrightarrow> ks \<noteq> [] \<Longrightarrow>
   node_at c ks = Some (NGetter g) \<Longrightarrow>
   read_path st (InView p) ks =
     (case g (i_values st) (i_cached st) of (v, c') \<Rightarrow> Inr (Detached v, st\<lparr>i_cached := c'\<rparr>))"
proof (induction ks arbitrary: p c)
  case Nil
  then show ?case by simp
next
  case (Cons k ks)
  from Cons.prems(4) obtain n where n: "map_of (props c) k = Some n" "node_at n ks = Some (NGetter g)"
    by (auto split: option.splits)
  from Cons.prems(1,2) have cont: "\<forall>g. node_at (root st) p \<noteq> Some (NGetter g)"
    by auto
  show ?case
  proof (cases ks)
    case Nil
    with n have "n = NGetter g" by simp
    with n Cons.prems(1,2) Nil show ?thesis
      by (cases c) (auto simp: get_prop_def split: prod.splits)
  next
    case (Cons k' ks')
    with n have nc: "is_container n" using node_at_Cons_container by blast
    with n Cons.prems(1,2) have gp: "get_prop st (InView p) k = Inr (InView (p @ [k]), st)"
      by (cases c; cases n) (auto simp: get_prop_def)
    have at: "node_at (root st) (p @ [k]) = Some n"
      using Cons.prems(1) n by (simp add: node_at_snoc)
    have "ks \<noteq> []" using Cons by simp
    from Cons.IH [OF at nc this n(2)] gp show ?thesis by simp
  qed
qed

lemma read_root_getter:
  "ks \<noteq> [] \<Longrightarrow> node_at (root st) ks = Some (NGetter g) \<Longrightarrow>
   read_path st (InView []) ks =
     (case g (i_values st) (i_cached st) of (v, c') \<Rightarrow> Inr (Detached v, st\<lparr>i_cached := c'\<rparr>))"
  by (rule read_path_view [where c = "root st"]) (auto simp: root_def)

text \<open>
  Claim C2. \<^verbatim>\<open>setValues\<close> replaces the value sequence and empties the transform cache;
  the field registry, the unused set and the view with every installed accessor stay as
  they are. A field whose accessor is a plain index or a plain slice therefore reads, right
  after the call, the value taken from the new sequence, with no structure declared again.
\<close>

theorem C2_setValues_frame:
  "i_values (setValues st vs) = vs
   \<and> i_cached (setValues st vs) = Map.empty
   \<and> i_fields (setValues st vs) = i_fields st
   \<and> i_unused (setValues st vs) = i_unused st
   \<and> view (setValues st vs) = view st
   \<and> (\<forall>ks i ex. ks \<noteq> [] \<and> node_at (root st) ks = Some (NGetter (convertRangeToGetter (RIndex i) ex))
        \<longrightarrow> read_path (setValues st vs) (InView []) ks
            = Inr (Detached (arr_index vs i), setValues st vs))
   \<and> (\<forall>ks s e ex. ks \<noteq> [] \<and> node_at (root st) ks = Some (NGetter (convertRangeToGetter (RSlice s e) ex))
        \<longrightarrow> read_path (setValues st vs) (InView []) ks
            = Inr (Detached (JArr (js_slice vs s e)), setValues st vs))"
proof -
  have r: "root (setValues st vs) = root st" by (simp add: setValues_def root_def)
  have v: "i_values (setValues st vs) = vs" by (simp add: setValues_def)
  have c: "(setValues st vs)\<lparr>i_cached := i_cached (setValues st vs)\<rparr> = setValues st vs" by simp
  show ?thesis
    using r v c by (auto simp: read_root_getter) (simp_all add: setValues_def)
qed

lemma cached_getter:
  "cache_key rg = Some r \<Longrightarrow>
   convertRangeToGetter rg ex = cachedValue (fresh_value rg) r"
proof -
  have "fresh_value (RIndexFn r' i f) = (\<lambda>vs. f (arr_index vs i))" for r' i f
    by (rule ext) (simp add: fresh_value_def)
  moreover have "fresh_value (RSliceFn r' s e f) = (\<lambda>vs. f (JArr (js_slice vs s e)))" for r' s e f
    by (rule ext) (simp add: fresh_value_def)
  ultimately show "cache_key rg = Some r \<Longrightarrow> ?thesis"
    by (cases rg) (simp_all add: cache_key_def)
qed

lemma cachedValue_twice:
  "cachedValue vf r vs c = (v, c') \<Longrightarrow> cachedValue vf r vs c' = (v, c') \<and> c' r = Some v"
  by (auto simp: cachedValue_def Let_def split: option.splits)

lemma cachedValue_empty:
  "cachedValue vf r vs Map.empty = (vf vs, [r \<mapsto> vf vs])"
  by (simp add: cachedValue_def Let_def)

text \<open>The statement at a nested field, after new values arrive.\<close>

theorem C2_setValues_frame_witness:
  "node_at (root (projr (addStructure (setValues new_odo [JNum 11, JNum 12]) [(''p.b'', RIndex 1)])))
      [''p'', ''b'']
     = Some (NGetter (convertRangeToGetter (RIndex 1) (ExValue JUndefined)))
   \<and> returned (read_path
        (setValues (projr (addStructure (setValues new_odo [JNum 11, JNum 12]) [(''p.b'', RIndex 1)]))
           [JNum 111, JNum 112])
        (InView []) [''p'', ''b''])
     = Inr (Detached (JNum 112))"
proof -
  let ?st = "projr (addStructure (setValues new_odo [JNum 11, JNum 12]) [(''p.b'', RIndex 1)])"
  have h: "node_at (root ?st) [''p'', ''b'']
     = Some (NGetter (convertRangeToGetter (RIndex 1) (ExValue JUndefined)))"
    by (simp add: odo_defs)
  have "read_path (setValues ?st [JNum 111, JNum 112]) (InView []) [''p'', ''b'']
     = Inr (Detached (arr_index [JNum 111, JNum 112] 1), setValues ?st [JNum 111, JNum 112])"
    using C2_setValues_frame [of ?st "[JNum 111, JNum 112]"] h by blast
  then show ?thesis using h by (simp add: returned_def arr_index_def)
qed

lemma cachedValue_hit:
  "c r = Some w \<Longrightarrow> cachedValue vf r vs c = (w, c)"
  by (simp add: cachedValue_def)

text \<open>
  Claim C3. For a field declared with \<^verbatim>\<open>[i, fn]\<close> or \<^verbatim>\<open>[s, e, fn]\<close>, a read looks the
  specification up in the cache. When the cache holds an entry under the specification,
  the read returns that entry, whatever it is, and computes nothing: the instance is left
  as it is. When it holds none, the read applies the transform to the value sequence and
  stores the result. So the second of two reads in a row returns the entry the first one
  stored, which is the same object in JavaScript (values carry no identity here, so the
  statement is that the stored entry is what is returned). \<^verbatim>\<open>setValues\<close> removes the
  entry, and the read that follows applies the transform to the new sequence and stores
  the result.
\<close>

theorem C3_transform_cache:
  assumes key: "cache_key rg = Some r"
    and at: "ks \<noteq> []" "node_at (root st) ks = Some (NGetter (convertRangeToGetter rg ex))"
    and first: "read_path st (InView []) ks = Inr (Detached v, st1)"
  shows "read_path st1 (InView []) ks = Inr (Detached v, st1)
         \<and> i_cached st1 r = Some v
         \<and> (i_cached st r = None \<longrightarrow>
              v = fresh_value rg (i_values st) \<and> st1 = st\<lparr>i_cached := (i_cached st)(r \<mapsto> v)\<rparr>)
         \<and> (\<forall>w. i_cached st r = Some w \<longrightarrow> v = w \<and> st1 = st)
         \<and> i_cached (setValues st1 vs') r = None
         \<and> read_path (setValues st1 vs') (InView []) ks
            = Inr (Detached (fresh_value rg vs'),
                   (setValues st1 vs')\<lparr>i_cached := [r \<mapsto> fresh_value rg vs']\<rparr>)"
proof -
  let ?g = "cachedValue (fresh_value rg) r"
  have g: "convertRangeToGetter rg ex = ?g" using key by (rule cached_getter)
  from first at g obtain c' where 1: "?g (i_values st) (i_cached st) = (v, c')"
    and st1: "st1 = st\<lparr>i_cached := c'\<rparr>"
    by (auto simp: read_root_getter split: prod.splits)
  from cachedValue_twice [OF 1] have 2: "?g (i_values st) c' = (v, c')" "c' r = Some v" by auto
  have r1: "root st1 = root st" using st1 by simp
  have a: "read_path st1 (InView []) ks = Inr (Detached v, st1)"
    using at g 2 st1 r1 by (simp add: read_root_getter)
  have b: "i_cached st1 r = Some v" using 2 st1 by simp
  have miss: "i_cached st r = None \<longrightarrow>
              v = fresh_value rg (i_values st) \<and> st1 = st\<lparr>i_cached := (i_cached st)(r \<mapsto> v)\<rparr>"
    using 1 st1 by (auto simp: cachedValue_def Let_def)
  have hit: "\<forall>w. i_cached st r = Some w \<longrightarrow> v = w \<and> st1 = st"
    using 1 st1 by (auto simp: cachedValue_def)
  have c: "i_cached (setValues st1 vs') r = None" by (simp add: setValues_def)
  have d: "read_path (setValues st1 vs') (InView []) ks
            = Inr (Detached (fresh_value rg vs'),
                   (setValues st1 vs')\<lparr>i_cached := [r \<mapsto> fresh_value rg vs']\<rparr>)"
  proof -
    have r2: "root (setValues st1 vs') = root st" using r1 by (simp add: setValues_def root_def)
    have "i_values (setValues st1 vs') = vs'" "i_cached (setValues st1 vs') = Map.empty"
      by (simp_all add: setValues_def)
    then show ?thesis using at g r2 by (simp add: read_root_getter cachedValue_empty)
  qed
  from a b miss hit c d show ?thesis by blast
qed

text \<open>
  The statement for a field \<^verbatim>\<open>a: [0, v => [v, v]]\<close>: on a cache without an entry, and on
  a cache whose entry differs from what the transform computes.
\<close>

theorem C3_transform_cache_witness:
  "cache_key (RIndexFn 7 0 (\<lambda>v. JArr [v, v])) = Some 7
   \<and> node_at (root (projr (addStructure (setValues new_odo [JNum 11]) [(''a'', RIndexFn 7 0 (\<lambda>v. JArr [v, v]))])))
        [''a'']
      = Some (NGetter (convertRangeToGetter (RIndexFn 7 0 (\<lambda>v. JArr [v, v])) (ExValue JUndefined)))
   \<and> returned (read_path (projr (addStructure (setValues new_odo [JNum 11]) [(''a'', RIndexFn 7 0 (\<lambda>v. JArr [v, v]))]))
        (InView []) [''a''])
      = Inr (Detached (JArr [JNum 11, JNum 11]))
   \<and> returned (read_path
         ((projr (addStructure (setValues new_odo [JNum 11]) [(''a'', RIndexFn 7 0 (\<lambda>v. JArr [v, v]))]))
            \<lparr>i_cached := [7 \<mapsto> JArr [JNum 11, JNum 11]]\<rparr>)
         (InView []) [''a''])
      = Inr (Detached (JArr [JNum 11, JNum 11]))
   \<and> returned (read_path
         ((projr (addStructure (setValues new_odo [JNum 11]) [(''a'', RIndexFn 7 0 (\<lambda>v. JArr [v, v]))]))
            \<lparr>i_cached := [7 \<mapsto> JStr ''kept'']\<rparr>)
         (InView []) [''a''])
      = Inr (Detached (JStr ''kept''))
   \<and> returned (read_path
         (setValues ((projr (addStructure (setValues new_odo [JNum 11]) [(''a'', RIndexFn 7 0 (\<lambda>v. JArr [v, v]))]))
            \<lparr>i_cached := [7 \<mapsto> JArr [JNum 11, JNum 11]]\<rparr>)
            [JNum 5])
         (InView []) [''a''])
      = Inr (Detached (JArr [JNum 5, JNum 5]))"
proof -
  let ?rg = "RIndexFn 7 0 (\<lambda>v. JArr [v, v])"
  let ?st = "projr (addStructure (setValues new_odo [JNum 11]) [(''a'', ?rg)])"
  let ?st1 = "?st\<lparr>i_cached := [7 \<mapsto> JArr [JNum 11, JNum 11]]\<rparr>"
  let ?stk = "?st\<lparr>i_cached := [7 \<mapsto> JStr ''kept'']\<rparr>"
  have k: "cache_key ?rg = Some 7" by (simp add: cache_key_def)
  have n: "[''a''] \<noteq> []" by simp
  have at: "node_at (root ?st) [''a''] = Some (NGetter (convertRangeToGetter ?rg (ExValue JUndefined)))"
    by (simp add: odo_defs)
  have atk: "node_at (root ?stk) [''a''] = Some (NGetter (convertRangeToGetter ?rg (ExValue JUndefined)))"
    by (simp add: odo_defs)
  have first: "read_path ?st (InView []) [''a''] = Inr (Detached (JArr [JNum 11, JNum 11]), ?st1)"
    by (simp add: odo_defs)
  have firstk: "read_path ?stk (InView []) [''a''] = Inr (Detached (JStr ''kept''), ?stk)"
    by (simp add: odo_defs)
  have fv: "fresh_value ?rg [JNum 5] = JArr [JNum 5, JNum 5]"
    by (simp add: fresh_value_def arr_index_def)
  note c = C3_transform_cache [OF k n at first, of "[JNum 5]", unfolded fv]
  note ck = C3_transform_cache [OF k n atk firstk, of "[JNum 5]"]
  have r1: "returned (read_path ?st (InView []) [''a'']) = Inr (Detached (JArr [JNum 11, JNum 11]))"
    by (simp only: first returned_def sum.case prod.case)
  have r2: "returned (read_path ?st1 (InView []) [''a'']) = Inr (Detached (JArr [JNum 11, JNum 11]))"
    by (simp only: c [THEN conjunct1] returned_def sum.case prod.case)
  have r3: "returned (read_path (setValues ?st1 [JNum 5]) (InView []) [''a''])
              = Inr (Detached (JArr [JNum 5, JNum 5]))"
    by (simp only: c [THEN conjunct2, THEN conjunct2, THEN conjunct2, THEN conjunct2, THEN conjunct2]
          returned_def sum.case prod.case)
  have r4: "returned (read_path ?stk (InView []) [''a'']) = Inr (Detached (JStr ''kept''))"
    by (simp only: ck [THEN conjunct1] returned_def sum.case prod.case)
  show ?thesis by (intro conjI) (rule k at r1 r2 r4 r3)+
qed

subsection \<open>The unused set\<close>

text \<open>
  Claim C6. \<^verbatim>\<open>removeUnusedStructure\<close> is to delete every container still marked unused,
  those of nested paths included. The code does not: \<^verbatim>\<open>resetStructure\<close> records the
  prefix of \<^verbatim>\<open>cow.launcher.enabled\<close> as the string \<^verbatim>\<open>"cow.launcher"\<close>, and
  \<^verbatim>\<open>removeUnusedStructure\<close>, which expects an array for a nested path, deletes the
  top-level property of that name, which does not exist. After the call the unused set is
  empty and the containers \<^verbatim>\<open>cow\<close> and \<^verbatim>\<open>cow.launcher\<close> are still in the view.
\<close>

theorem C6_nested_unused_kept:
  "and_then (and_then
       (addStructure (setValues new_odo [JNum 11, JNum 12]) [(''cow.launcher.enabled'', RIndex 1)])
       resetStructure)
       (\<lambda>st. Inr (i_unused st, view st))
     = Inr ([UStr ''cow.launcher''], [(''cow'', NObj [(''launcher'', NObj [])])])
   \<and> and_then (and_then (and_then
       (addStructure (setValues new_odo [JNum 11, JNum 12]) [(''cow.launcher.enabled'', RIndex 1)])
       resetStructure)
       removeUnusedStructure)
       (\<lambda>st. Inr (i_unused st, view st))
     = Inr ([], [(''cow'', NObj [(''launcher'', NObj [])])])"
  by (simp add: odo_defs isFinite_defs)

text \<open>
  Claim C7. \<^verbatim>\<open>addStructure\<close> is to unmark every prefix it walks. For a path of three
  segments it does not: \<^verbatim>\<open>_ensurePathStructure\<close> appends the whole shortened path,
  \<^verbatim>\<open>"a,b"\<close>, to the key it rebuilds, and never obtains \<^verbatim>\<open>"a.b"\<close>. The prefix marked by
  \<^verbatim>\<open>resetStructure\<close> is still marked after the same field is declared again.
\<close>

theorem C7_nested_unused_not_unmarked:
  "and_then (and_then
       (addStructure (setValues new_odo [JNum 11, JNum 12]) [(''a.b.c'', RIndex 1)])
       resetStructure)
       (\<lambda>st. Inr (i_unused st))
     = Inr [UStr ''a.b'']
   \<and> and_then (and_then (and_then
       (addStructure (setValues new_odo [JNum 11, JNum 12]) [(''a.b.c'', RIndex 1)])
       resetStructure)
       (\<lambda>st. addStructure st [(''a.b.c'', RIndex 1)]))
       (\<lambda>st. Inr (i_unused st))
     = Inr [UStr ''a.b'']"
  by (simp add: odo_defs isFinite_defs)

subsection \<open>The loops of \<^verbatim>\<open>addStructure\<close>\<close>

lemma ensure_loop_Cons_Inr:
  assumes "ensure_loop pth st ob index rb (k # ks) = Inr (ob', st')"
  obtains v st1 st2 ob1 st3 u rb' where
    "get_prop st ob k = Inr (v, st1)"
    "if v = Detached JUndefined then set_prop st1 ob k (next_container pth index) = Inr st2
     else st2 = st1"
    "get_prop st2 ob k = Inr (ob1, st3)"
    "set u \<subseteq> set (i_unused st3)"
    "ensure_loop pth (st3\<lparr>i_unused := u\<rparr>) ob1 (Suc index) rb' ks = Inr (ob', st')"
proof -
  from assms obtain v st1 where g1: "get_prop st ob k = Inr (v, st1)"
    by (auto split: sum.splits)
  let ?s = "if v = Detached JUndefined then set_prop st1 ob k (next_container pth index) else Inr st1"
  from assms g1 obtain st2 where s2: "?s = Inr st2"
    by (cases ?s) (auto simp: next_container_def Let_def split: if_splits)
  from assms g1 s2 obtain ob1 st3 where g2: "get_prop st2 ob k = Inr (ob1, st3)"
    by (cases "get_prop st2 ob k") (auto simp: next_container_def Let_def split: if_splits)
  let ?rb = "rb @ (if rb \<noteq> [] then ''.'' else []) @ join '','' pth"
  let ?u = "if UStr ?rb \<in> set (i_unused st3) then removeAll (UStr ?rb) (i_unused st3) else i_unused st3"
  have u: "set ?u \<subseteq> set (i_unused st3)" by auto
  have st4: "(if UStr ?rb \<in> set (i_unused st3)
        then st3\<lparr>i_unused := removeAll (UStr ?rb) (i_unused st3)\<rparr> else st3) = st3\<lparr>i_unused := ?u\<rparr>"
    by simp
  from assms g1 s2 g2 have "ensure_loop pth (st3\<lparr>i_unused := ?u\<rparr>) ob1 (Suc index) ?rb ks = Inr (ob', st')"
    unfolding st4 [symmetric]
    by (auto simp: next_container_def Let_def split: if_splits)
  with g1 s2 g2 u show thesis
    by (intro that [of v st1 st2 ob1 st3 ?u ?rb]) (auto split: if_splits)
qed

subsection \<open>Accessors under updates of the view\<close>

lemma props_put_prop:
  "is_container c \<Longrightarrow> map_of (props (put_prop k v c)) k' = (if k' = k then Some v else map_of (props c) k')"
  by (cases c) (auto simp: update_conv')

lemma props_del_prop:
  "map_of (props (del_prop k c)) k' = (if k' = k then None else map_of (props c) k')"
  by (cases c) (auto simp: delete_conv')

lemma is_container_put_prop [simp]: "is_container (put_prop k v c) = is_container c"
  by (cases c) auto

lemma is_container_del_prop [simp]: "is_container (del_prop k c) = is_container c"
  by (cases c) auto

lemma node_at_put:
  "node_at n0 p = Some c \<Longrightarrow> is_container c \<Longrightarrow>
   node_at (upd_node p (put_prop k v) n0) (p @ k' # r)
     = (if k' = k then node_at v r else node_at c (k' # r))"
  by (simp add: node_at_upd_same props_put_prop)

lemma node_at_del:
  "node_at n0 p = Some c \<Longrightarrow>
   node_at (upd_node p (del_prop k) n0) (p @ k' # r)
     = (if k' = k then None else node_at c (k' # r))"
  by (simp add: node_at_upd_same props_del_prop)

lemma node_at_append:
  "node_at n (p @ r) = (case node_at n p of None \<Rightarrow> None | Some c \<Rightarrow> node_at c r)"
  by (induction p arbitrary: n) (auto split: option.splits)

lemma getter_after_put:
  assumes c: "node_at n0 p = Some c" "is_container c"
    and g: "node_at (upd_node p (put_prop k v) n0) q = Some (NGetter g)"
  shows "node_at n0 q = Some (NGetter g) \<or> (\<exists>r. q = p @ k # r \<and> node_at v r = Some (NGetter g))"
proof (cases "\<exists>r. q = p @ r")
  case False
  then show ?thesis using node_at_upd_getter_other [OF g] by blast
next
  case True
  then obtain r where q: "q = p @ r" by blast
  show ?thesis
  proof (cases r)
    case Nil
    with g q c have "put_prop k v c = NGetter g"
      using node_at_upd_same [OF c(1), of "put_prop k v" "[]"] by simp
    with c(2) show ?thesis by (cases c) auto
  next
    case (Cons k' r')
    have old: "node_at n0 (p @ k' # r') = node_at c (k' # r')"
      using c(1) by (simp add: node_at_append)
    from g q Cons have "(if k' = k then node_at v r' else node_at c (k' # r')) = Some (NGetter g)"
      using node_at_put [OF c, of k v k' r'] by simp
    with old q Cons show ?thesis by (auto split: if_splits)
  qed
qed

lemma getter_after_del:
  assumes c: "node_at n0 p = Some c" "is_container c"
    and g: "node_at (upd_node p (del_prop k) n0) q = Some (NGetter g)"
  shows "node_at n0 q = Some (NGetter g) \<and> (\<forall>r. q \<noteq> p @ k # r)"
proof (cases "\<exists>r. q = p @ r")
  case False
  then show ?thesis using node_at_upd_getter_other [OF g] by auto
next
  case True
  then obtain r where q: "q = p @ r" by blast
  show ?thesis
  proof (cases r)
    case Nil
    with g q c have "del_prop k c = NGetter g"
      using node_at_upd_same [OF c(1), of "del_prop k" "[]"] by simp
    with c(2) show ?thesis by (cases c) auto
  next
    case (Cons k' r')
    have old: "node_at n0 (p @ k' # r') = node_at c (k' # r')"
      using c(1) by (simp add: node_at_append)
    from g q Cons have "(if k' = k then None else node_at c (k' # r')) = Some (NGetter g)"
      using node_at_del [OF c(1), of k k' r'] by simp
    with old q Cons show ?thesis by (auto split: if_splits)
  qed
qed

lemma node_at_getter_nil: "node_at (NGetter g) r = Some x \<Longrightarrow> r = []"
  by (cases r) auto

lemma node_at_empty_obj: "node_at (NObj []) r \<noteq> Some (NGetter g)"
  by (cases r) auto

lemma node_at_empty_arr: "node_at (NArr len []) r \<noteq> Some (NGetter g)"
  by (cases r) auto

lemma with_root_frame [simp]:
  "i_values (with_root st n) = i_values st"
  "i_fields (with_root st n) = i_fields st"
  "i_unused (with_root st n) = i_unused st"
  "i_cached (with_root st n) = i_cached st"
  by (simp_all add: with_root_def)

lemma set_prop_frame:
  "set_prop st ob k n = Inr st' \<Longrightarrow>
   i_values st' = i_values st \<and> i_fields st' = i_fields st \<and> i_unused st' = i_unused st
   \<and> i_cached st' = i_cached st"
  by (auto dest!: set_prop_Inr)

lemma defineProperty_frame:
  "defineProperty st ob k g = Inr st' \<Longrightarrow>
   i_values st' = i_values st \<and> i_fields st' = i_fields st \<and> i_unused st' = i_unused st
   \<and> i_cached st' = i_cached st"
  by (auto dest!: defineProperty_Inr)

lemma delete_prop_frame:
  "delete_prop st ob k = Inr st' \<Longrightarrow>
   i_values st' = i_values st \<and> i_fields st' = i_fields st \<and> i_unused st' = i_unused st
   \<and> i_cached st' = i_cached st"
  by (auto dest!: delete_prop_Inr)

lemma accessor_paths_get_prop:
  "get_prop st ob k = Inr (v, st') \<Longrightarrow> accessor_paths st' = accessor_paths st"
  by (simp add: accessor_paths_def get_prop_root)

lemma accessor_paths_unused [simp]:
  "accessor_paths (st\<lparr>i_unused := u\<rparr>) = accessor_paths st"
  by (simp add: accessor_paths_def)

lemma accessor_paths_fields [simp]:
  "accessor_paths (st\<lparr>i_fields := u\<rparr>) = accessor_paths st"
  by (simp add: accessor_paths_def)

lemma accessor_paths_cached [simp]:
  "accessor_paths (st\<lparr>i_cached := u\<rparr>) = accessor_paths st"
  by (simp add: accessor_paths_def)

lemma accessor_paths_set_prop:
  assumes "set_prop st ob k n = Inr st'" and "n = NObj [] \<or> n = NArr 0 []"
  shows "accessor_paths st' \<subseteq> accessor_paths st"
proof
  fix q assume "q \<in> accessor_paths st'"
  then obtain g where g: "node_at (root st') q = Some (NGetter g)"
    by (auto simp: accessor_paths_def)
  from set_prop_Inr [OF assms(1)] obtain p c where
    c: "node_at (root st) p = Some c" "is_container c"
    and st': "st' = with_root st (upd_node p (put_prop k n) (root st))" by blast
  from g st' have "node_at (upd_node p (put_prop k n) (root st)) q = Some (NGetter g)" by simp
  from getter_after_put [OF c this] assms(2)
  have "node_at (root st) q = Some (NGetter g)"
    by (auto simp: node_at_empty_obj node_at_empty_arr)
  then show "q \<in> accessor_paths st" by (auto simp: accessor_paths_def)
qed

lemma accessor_paths_defineProperty:
  assumes "defineProperty st ob k g = Inr st'"
  shows "\<exists>p. ob = InView p \<and> accessor_paths st' \<subseteq> insert (p @ [k]) (accessor_paths st)
           \<and> node_at (root st') (p @ [k]) = Some (NGetter g)"
proof -
  from defineProperty_Inr [OF assms] obtain p c where
    ob: "ob = InView p" and c: "node_at (root st) p = Some c" "is_container c"
    and st': "st' = with_root st (upd_node p (put_prop k (NGetter g)) (root st))" by blast
  have "accessor_paths st' \<subseteq> insert (p @ [k]) (accessor_paths st)"
  proof
    fix q assume "q \<in> accessor_paths st'"
    then obtain g' where "node_at (upd_node p (put_prop k (NGetter g)) (root st)) q = Some (NGetter g')"
      using st' by (auto simp: accessor_paths_def)
    from getter_after_put [OF c this]
    show "q \<in> insert (p @ [k]) (accessor_paths st)"
      by (auto simp: accessor_paths_def dest: node_at_getter_nil)
  qed
  moreover have "node_at (root st') (p @ [k]) = Some (NGetter g)"
    using st' node_at_put [OF c, of k "NGetter g" k "[]"] by simp
  ultimately show ?thesis using ob by blast
qed

lemma accessor_paths_delete_prop:
  assumes "delete_prop st ob k = Inr st'"
  shows "accessor_paths st' \<subseteq> accessor_paths st
         \<and> (\<forall>p. ob = InView p \<longrightarrow> p @ [k] \<notin> accessor_paths st')"
proof -
  from delete_prop_Inr [OF assms] show ?thesis
  proof
    assume "\<exists>p c. ob = InView p \<and> node_at (root st) p = Some c \<and> is_container c
        \<and> st' = with_root st (upd_node p (del_prop k) (root st))"
    then obtain p c where ob: "ob = InView p" and c: "node_at (root st) p = Some c" "is_container c"
      and st': "st' = with_root st (upd_node p (del_prop k) (root st))" by blast
    have "\<And>q. q \<in> accessor_paths st' \<Longrightarrow> q \<in> accessor_paths st \<and> q \<noteq> p @ [k]"
    proof -
      fix q assume "q \<in> accessor_paths st'"
      then obtain g' where "node_at (upd_node p (del_prop k) (root st)) q = Some (NGetter g')"
        using st' by (auto simp: accessor_paths_def)
      from getter_after_del [OF c this]
      show "q \<in> accessor_paths st \<and> q \<noteq> p @ [k]" by (auto simp: accessor_paths_def)
    qed
    then show ?thesis using ob by auto
  next
    assume "(\<exists>v. ob = Detached v) \<and> st' = st"
    then show ?thesis by auto
  qed
qed

subsection \<open>What \<^verbatim>\<open>addStructure\<close> installs\<close>

lemma next_container_cases: "next_container pth index = NObj [] \<or> next_container pth index = NArr 0 []"
  by (simp add: next_container_def)

lemma ensure_loop_frame:
  "ensure_loop pth st ob index rb ks = Inr (ob', st') \<Longrightarrow>
   i_values st' = i_values st \<and> i_fields st' = i_fields st
   \<and> accessor_paths st' \<subseteq> accessor_paths st
   \<and> set (i_unused st') \<subseteq> set (i_unused st)"
proof (induction ks arbitrary: st ob index rb)
  case Nil
  then show ?case by simp
next
  case (Cons k ks)
  from Cons.prems obtain v st1 st2 ob1 st3 u rb' where
    g1: "get_prop st ob k = Inr (v, st1)"
    and s2: "if v = Detached JUndefined then set_prop st1 ob k (next_container pth index) = Inr st2
             else st2 = st1"
    and g2: "get_prop st2 ob k = Inr (ob1, st3)"
    and u: "set u \<subseteq> set (i_unused st3)"
    and rest: "ensure_loop pth (st3\<lparr>i_unused := u\<rparr>) ob1 (Suc index) rb' ks = Inr (ob', st')"
    by (rule ensure_loop_Cons_Inr)
  note f1 = get_prop_frame [OF g1] accessor_paths_get_prop [OF g1]
  have f2: "i_values st2 = i_values st1 \<and> i_fields st2 = i_fields st1
            \<and> i_unused st2 = i_unused st1 \<and> accessor_paths st2 \<subseteq> accessor_paths st1"
  proof (cases "v = Detached JUndefined")
    case True
    with s2 have sp: "set_prop st1 ob k (next_container pth index) = Inr st2" by simp
    from set_prop_frame [OF sp] accessor_paths_set_prop [OF sp next_container_cases]
    show ?thesis by simp
  next
    case False
    with s2 show ?thesis by simp
  qed
  note f3 = get_prop_frame [OF g2] accessor_paths_get_prop [OF g2]
  from Cons.IH [OF rest] have f4: "i_values st' = i_values st3" "i_fields st' = i_fields st3"
    "accessor_paths st' \<subseteq> accessor_paths st3" "set (i_unused st') \<subseteq> set u" by auto
  from f1 f2 f3 f4 u show ?case by auto
qed

lemma ensure_loop_Detached:
  "ensure_loop pth st (Detached v) index rb ks = Inr (ob', st') \<Longrightarrow> \<exists>w. ob' = Detached w"
proof (induction ks arbitrary: st v index rb)
  case Nil
  then show ?case by auto
next
  case (Cons k ks)
  from Cons.prems obtain v1 st1 st2 ob1 st3 u rb' where
    g1: "get_prop st (Detached v) k = Inr (v1, st1)"
    and g2: "get_prop st2 (Detached v) k = Inr (ob1, st3)"
    and rest: "ensure_loop pth (st3\<lparr>i_unused := u\<rparr>) ob1 (Suc index) rb' ks = Inr (ob', st')"
    by (rule ensure_loop_Cons_Inr)
  from get_prop_Detached [OF g2] obtain w where "ob1 = Detached w" by blast
  with rest Cons.IH show ?case by blast
qed

lemma ensure_loop_InView:
  "ensure_loop pth st (InView p) index rb ks = Inr (ob', st') \<Longrightarrow>
   (\<exists>w. ob' = Detached w) \<or> ob' = InView (p @ ks)"
proof (induction ks arbitrary: st p index rb)
  case Nil
  then show ?case by simp
next
  case (Cons k ks)
  from Cons.prems obtain v1 st1 st2 ob1 st3 u rb' where
    g2: "get_prop st2 (InView p) k = Inr (ob1, st3)"
    and rest: "ensure_loop pth (st3\<lparr>i_unused := u\<rparr>) ob1 (Suc index) rb' ks = Inr (ob', st')"
    by (rule ensure_loop_Cons_Inr)
  show ?case
  proof (cases ob1)
    case (InView q)
    with g2 have "q = p @ [k]" using get_prop_InView by blast
    with rest InView Cons.IH [of "st3\<lparr>i_unused := u\<rparr>" "p @ [k]"] show ?thesis by auto
  next
    case (Detached w)
    with rest ensure_loop_Detached show ?thesis by blast
  qed
qed

lemma ensurePathStructure_Inr:
  assumes "ensurePathStructure st pth = Inr ((ob, k), st')"
  shows "k = pop_key pth
         \<and> ((\<exists>w. ob = Detached w) \<or> ob = InView (butlast pth))
         \<and> i_values st' = i_values st \<and> i_fields st' = i_fields st
         \<and> accessor_paths st' \<subseteq> accessor_paths st
         \<and> set (i_unused st') \<subseteq> set (i_unused st)"
proof -
  from assms obtain ob0 where
    l: "ensure_loop (butlast pth) st (InView []) 0 [] (butlast pth) = Inr (ob0, st')"
    and r: "ob = ob0" "k = pop_key pth"
    by (auto simp: ensurePathStructure_def Let_def split: sum.splits)
  from ensure_loop_frame [OF l] ensure_loop_InView [OF l] r show ?thesis by auto
qed

text \<open>One entry of the structure.\<close>

lemma add_entries_Cons_Inr:
  assumes "add_entries st ((fieldName, rng) # es) = Inr st'"
  obtains ob k st1 ex st2 st3 where
    "if CHR ''.'' \<in> set fieldName
     then ensurePathStructure (st\<lparr>i_fields := set_add fieldName (i_fields st)\<rparr>) (split_dot fieldName)
            = Inr ((ob, k), st1)
     else ob = InView [] \<and> k = fieldName \<and> st1 = st\<lparr>i_fields := set_add fieldName (i_fields st)\<rparr>"
    "get_prop st1 ob k = Inr (ex, st2)"
    "defineProperty st2 ob k (convertRangeToGetter rng (resolve_existing st2 ex)) = Inr st3"
    "add_entries st3 es = Inr st'"
proof -
  let ?st0 = "st\<lparr>i_fields := set_add fieldName (i_fields st)\<rparr>"
  let ?e = "if CHR ''.'' \<in> set fieldName then ensurePathStructure ?st0 (split_dot fieldName)
            else Inr ((InView [], fieldName), ?st0)"
  from assms obtain ob k st1 where e: "?e = Inr ((ob, k), st1)"
    by (cases ?e) (auto simp: Let_def split: if_splits)
  from assms e obtain ex st2 where g: "get_prop st1 ob k = Inr (ex, st2)"
    by (cases "get_prop st1 ob k") (auto simp: Let_def split: if_splits)
  let ?d = "defineProperty st2 ob k (convertRangeToGetter rng (resolve_existing st2 ex))"
  from assms e g obtain st3 where d: "?d = Inr st3"
    by (cases ?d) (auto simp: Let_def split: if_splits)
  from assms e g d have r: "add_entries st3 es = Inr st'"
    by (auto simp: Let_def split: if_splits)
  from e g d r show thesis
    by (intro that [of ob k st1 ex st2 st3]) (auto split: if_splits)
qed

lemma split_dot_last: "butlast (split_dot s) @ [pop_key (split_dot s)] = split_dot s"
  by (simp add: pop_key_def split_dot_nonempty)

lemma add_entry_installs:
  assumes "add_entries st ((fieldName, rng) # es) = Inr st'"
  obtains ex st3 where
    "node_at (root st3) (split_dot fieldName) = Some (NGetter (convertRangeToGetter rng ex))"
    "i_values st3 = i_values st"
    "set (i_fields st3) = insert fieldName (set (i_fields st))"
    "accessor_paths st3 \<subseteq> insert (split_dot fieldName) (accessor_paths st)"
    "set (i_unused st3) \<subseteq> set (i_unused st)"
    "add_entries st3 es = Inr st'"
proof -
  let ?st0 = "st\<lparr>i_fields := set_add fieldName (i_fields st)\<rparr>"
  from assms obtain ob k st1 ex st2 st3 where
    e: "if CHR ''.'' \<in> set fieldName
        then ensurePathStructure ?st0 (split_dot fieldName) = Inr ((ob, k), st1)
        else ob = InView [] \<and> k = fieldName \<and> st1 = ?st0"
    and g: "get_prop st1 ob k = Inr (ex, st2)"
    and d: "defineProperty st2 ob k (convertRangeToGetter rng (resolve_existing st2 ex)) = Inr st3"
    and r: "add_entries st3 es = Inr st'"
    by (rule add_entries_Cons_Inr)
  from accessor_paths_defineProperty [OF d] obtain p where
    ob: "ob = InView p"
    and sub: "accessor_paths st3 \<subseteq> insert (p @ [k]) (accessor_paths st2)"
    and at: "node_at (root st3) (p @ [k])
              = Some (NGetter (convertRangeToGetter rng (resolve_existing st2 ex)))" by blast
  have f0: "set (i_fields ?st0) = insert fieldName (set (i_fields st))"
    by (auto simp: set_add_def)
  have e': "p @ [k] = split_dot fieldName \<and> i_values st1 = i_values st
            \<and> set (i_fields st1) = insert fieldName (set (i_fields st))
            \<and> accessor_paths st1 \<subseteq> accessor_paths st
            \<and> set (i_unused st1) \<subseteq> set (i_unused st)"
  proof (cases "CHR ''.'' \<in> set fieldName")
    case True
    with e have "ensurePathStructure ?st0 (split_dot fieldName) = Inr ((ob, k), st1)" by simp
    from ensurePathStructure_Inr [OF this] ob f0 show ?thesis
      using split_dot_last [of fieldName] by auto
  next
    case False
    with e ob f0 show ?thesis by (auto simp: split_dot_nodot)
  qed
  note fg = get_prop_frame [OF g] accessor_paths_get_prop [OF g]
  note fd = defineProperty_frame [OF d]
  show thesis
  proof (rule that [of st3 "resolve_existing st2 ex"])
    show "node_at (root st3) (split_dot fieldName)
            = Some (NGetter (convertRangeToGetter rng (resolve_existing st2 ex)))"
      using at e' by simp
    show "i_values st3 = i_values st" using e' fg fd by simp
    show "set (i_fields st3) = insert fieldName (set (i_fields st))" using e' fg fd by simp
    show "accessor_paths st3 \<subseteq> insert (split_dot fieldName) (accessor_paths st)"
      using sub e' fg by auto
    show "set (i_unused st3) \<subseteq> set (i_unused st)" using e' fg fd by simp
    show "add_entries st3 es = Inr st'" by (rule r)
  qed
qed

subsection \<open>Single indices\<close>




subsection \<open>Export\<close>






lemma force_array_length:
  "\<exists>xs c. force (NArr len ps) vs c0 = (JArr xs, c) \<and> length xs = len"
  by (auto split: prod.splits)

subsection \<open>Array indices\<close>










subsection \<open>Forcing along a path\<close>







subsection \<open>The round trip along a path\<close>






lemma jsval_at_append:
  "jsval_at v (q @ r) = (case jsval_at v q of None \<Rightarrow> None | Some w \<Rightarrow> jsval_at w r)"
  by (induction q arbitrary: v) (auto split: jsval.splits option.splits)

subsection \<open>The snapshot\<close>






subsection \<open>Containers that exist keep their kind\<close>

lemma node_at_upd_kind_other:
  "(\<forall>r. q \<noteq> p @ r) \<Longrightarrow> node_at n q = Some y \<Longrightarrow>
   \<exists>x. node_at (upd_node p f n) q = Some x
       \<and> is_container x = is_container y \<and> is_array x = is_array y"
proof (induction q arbitrary: p n)
  case Nil
  then show ?case by (cases p; cases n) auto
next
  case (Cons k q)
  from Cons.prems(2) obtain m where m: "map_of (props n) k = Some m" "node_at m q = Some y"
    by (auto split: option.splits)
  show ?case
  proof (cases p)
    case Nil
    with Cons.prems(1) show ?thesis by simp
  next
    case (Cons k' p')
    show ?thesis
    proof (cases "k' = k")
      case True
      from Cons.prems(1) have nr: "\<forall>r. q \<noteq> p' @ r" using Cons True by auto
      from Cons.IH [OF nr m(2)] m Cons True show ?thesis
        by (auto simp: props_upd_node_Cons map_of_upd_props)
    next
      case False
      with m Cons show ?thesis
        by (auto simp: props_upd_node_Cons map_of_upd_props)
    qed
  qed
qed

lemma is_array_put_prop [simp]: "is_array (put_prop k v c) = is_array c"
  by (cases c) auto

lemma node_at_put_absent_kind:
  assumes c: "node_at n p = Some c" "is_container c" and absent: "map_of (props c) k = None"
    and y: "node_at n q = Some y"
  shows "\<exists>x. node_at (upd_node p (put_prop k v) n) q = Some x
           \<and> is_container x = is_container y \<and> is_array x = is_array y"
proof (cases "\<exists>r. q = p @ r")
  case False
  then show ?thesis using node_at_upd_kind_other [OF _ y] by blast
next
  case True
  then obtain r where q: "q = p @ r" by blast
  show ?thesis
  proof (cases r)
    case Nil
    with q c y show ?thesis
      using node_at_upd_same [OF c(1), of "put_prop k v" "[]"] by simp
  next
    case (Cons k' r')
    from y q Cons c(1) have old: "node_at c (k' # r') = Some y"
      by (simp add: node_at_append)
    with absent have "k' \<noteq> k" by auto
    with old q Cons show ?thesis using node_at_put [OF c, of k v k' r'] by simp
  qed
qed

lemma get_prop_Detached_result:
  assumes "get_prop st (InView p) k = Inr (Detached v, st1)"
  shows "\<exists>c. node_at (root st) p = Some c \<and> is_container c
           \<and> (map_of (props c) k = None \<or> (\<exists>g. map_of (props c) k = Some (NGetter g)))"
  using assms
  by (auto simp: get_prop_def split: option.splits node.splits prod.splits)

lemma get_prop_absent:
  "node_at (root st) p = Some c \<Longrightarrow> is_container c \<Longrightarrow> map_of (props c) k = None \<Longrightarrow>
   get_prop st (InView p) k = Inr (Detached JUndefined, st)"
  by (cases c) (auto simp: get_prop_def)

lemma get_prop_container:
  "node_at (root st) (p @ [k]) = Some m \<Longrightarrow> is_container m \<Longrightarrow>
   get_prop st (InView p) k = Inr (InView (p @ [k]), st)"
  by (cases m) (auto simp: get_prop_def node_at_snoc split: option.splits node.splits)

lemma set_prop_absent_kind:
  assumes g: "get_prop st0 ob k = Inr (Detached JUndefined, st)"
    and s: "set_prop st ob k n = Inr st'"
    and y: "node_at (root st) q = Some y"
  shows "\<exists>x. node_at (root st') q = Some x
           \<and> is_container x = is_container y \<and> is_array x = is_array y"
proof -
  from set_prop_Inr [OF s] obtain p c where ob: "ob = InView p"
    and c: "node_at (root st) p = Some c" "is_container c"
    and ng: "\<forall>g. map_of (props c) k \<noteq> Some (NGetter g)"
    and st': "st' = with_root st (upd_node p (put_prop k n) (root st))" by blast
  from g ob have "get_prop st0 (InView p) k = Inr (Detached JUndefined, st)" by simp
  from get_prop_Detached_result [OF this] get_prop_root [OF g] c ng
  have absent: "map_of (props c) k = None" by auto
  from node_at_put_absent_kind [OF c absent y, of n] st' show ?thesis by simp
qed

lemma ensure_loop_keeps_kind:
  "ensure_loop pth st ob index rb ks = Inr (ob', st') \<Longrightarrow> node_at (root st) q = Some y \<Longrightarrow>
   \<exists>x. node_at (root st') q = Some x
       \<and> is_container x = is_container y \<and> is_array x = is_array y"
proof (induction ks arbitrary: st ob index rb y)
  case Nil
  then show ?case by simp
next
  case (Cons k ks)
  from Cons.prems(1) obtain v st1 st2 ob1 st3 u rb' where
    g1: "get_prop st ob k = Inr (v, st1)"
    and s2: "if v = Detached JUndefined then set_prop st1 ob k (next_container pth index) = Inr st2
             else st2 = st1"
    and g2: "get_prop st2 ob k = Inr (ob1, st3)"
    and rest: "ensure_loop pth (st3\<lparr>i_unused := u\<rparr>) ob1 (Suc index) rb' ks = Inr (ob', st')"
    by (rule ensure_loop_Cons_Inr)
  from Cons.prems(2) get_prop_root [OF g1] have y1: "node_at (root st1) q = Some y" by simp
  have "\<exists>x. node_at (root st2) q = Some x
           \<and> is_container x = is_container y \<and> is_array x = is_array y"
  proof (cases "v = Detached JUndefined")
    case True
    with s2 g1 have "set_prop st1 ob k (next_container pth index) = Inr st2"
      "get_prop st ob k = Inr (Detached JUndefined, st1)" by simp_all
    from set_prop_absent_kind [OF this(2) this(1) y1] show ?thesis .
  next
    case False
    with s2 y1 show ?thesis by simp
  qed
  then obtain x2 where x2: "node_at (root st2) q = Some x2"
    "is_container x2 = is_container y" "is_array x2 = is_array y" by blast
  from x2(1) get_prop_root [OF g2] have "node_at (root (st3\<lparr>i_unused := u\<rparr>)) q = Some x2" by simp
  from Cons.IH [OF rest this] x2 show ?case by auto
qed

lemma ensure_loop_skips_existing:
  "ensure_loop pth st (InView p) index rb (pre @ ks) = Inr (ob', st') \<Longrightarrow>
   node_at (root st) (p @ pre) = Some c \<Longrightarrow> is_container c \<Longrightarrow>
   \<exists>st0 rb0. ensure_loop pth st0 (InView (p @ pre)) (index + length pre) rb0 ks = Inr (ob', st')
           \<and> root st0 = root st"
proof (induction pre arbitrary: st p index rb)
  case Nil
  then show ?case by auto
next
  case (Cons k pre)
  from Cons.prems(2) have at: "node_at (root st) ((p @ [k]) @ pre) = Some c" by simp
  have "node_at (root st) ((p @ [k]) @ pre)
          = (case node_at (root st) (p @ [k]) of None \<Rightarrow> None | Some m \<Rightarrow> node_at m pre)"
    by (rule node_at_append)
  with at obtain m where m: "node_at (root st) (p @ [k]) = Some m" "node_at m pre = Some c"
    by (cases "node_at (root st) (p @ [k])") auto
  have mc: "is_container m"
  proof (cases pre)
    case Nil
    with m Cons.prems(3) show ?thesis by simp
  next
    case (Cons a list)
    with m show ?thesis using node_at_Cons_container by blast
  qed
  note gp = get_prop_container [OF m(1) mc]
  from Cons.prems(1)
  have l: "ensure_loop pth st (InView p) index rb (k # (pre @ ks)) = Inr (ob', st')"
    by (simp only: append_Cons)
  from l obtain v st1 st2 ob1 st3 u rb' where
    g1: "get_prop st (InView p) k = Inr (v, st1)"
    and s2: "if v = Detached JUndefined then set_prop st1 (InView p) k (next_container pth index) = Inr st2
             else st2 = st1"
    and g2: "get_prop st2 (InView p) k = Inr (ob1, st3)"
    and rest: "ensure_loop pth (st3\<lparr>i_unused := u\<rparr>) ob1 (Suc index) rb' (pre @ ks) = Inr (ob', st')"
    by (rule ensure_loop_Cons_Inr)
  from g1 gp have "v = InView (p @ [k])" "st1 = st" by simp_all
  with s2 have "st2 = st" by simp
  with g2 gp have "ob1 = InView (p @ [k])" "st3 = st" by simp_all
  with rest have r: "ensure_loop pth (st\<lparr>i_unused := u\<rparr>) (InView (p @ [k])) (Suc index) rb' (pre @ ks)
                      = Inr (ob', st')" by simp
  have "node_at (root (st\<lparr>i_unused := u\<rparr>)) ((p @ [k]) @ pre) = Some c" using at by simp
  from Cons.IH [OF r this Cons.prems(3)] show ?case by auto
qed

lemma ensure_loop_creates:
  assumes l: "ensure_loop pth st (InView p) index rb (k # ks) = Inr (ob', st')"
    and c: "node_at (root st) p = Some c" "is_container c" and absent: "map_of (props c) k = None"
  shows "\<exists>x. node_at (root st') (p @ [k]) = Some x \<and> is_container x
           \<and> is_array x = (Suc index < length pth \<and> js_isFinite (pth ! Suc index))"
proof -
  from l obtain v st1 st2 ob1 st3 u rb' where
    g1: "get_prop st (InView p) k = Inr (v, st1)"
    and s2: "if v = Detached JUndefined then set_prop st1 (InView p) k (next_container pth index) = Inr st2
             else st2 = st1"
    and g2: "get_prop st2 (InView p) k = Inr (ob1, st3)"
    and rest: "ensure_loop pth (st3\<lparr>i_unused := u\<rparr>) ob1 (Suc index) rb' ks = Inr (ob', st')"
    by (rule ensure_loop_Cons_Inr)
  from g1 get_prop_absent [OF c absent] have v: "v = Detached JUndefined" "st1 = st" by simp_all
  with s2 have sp: "set_prop st (InView p) k (next_container pth index) = Inr st2" by simp
  from set_prop_Inr [OF sp] c
  have st2: "st2 = with_root st (upd_node p (put_prop k (next_container pth index)) (root st))"
    by auto
  have "node_at (root st2) (p @ [k]) = Some (next_container pth index)"
    using st2 node_at_put [OF c, of k "next_container pth index" k "[]"] by simp
  with get_prop_root [OF g2]
  have "node_at (root (st3\<lparr>i_unused := u\<rparr>)) (p @ [k]) = Some (next_container pth index)" by simp
  from ensure_loop_keeps_kind [OF rest this] show ?thesis
    by (auto simp: next_container_def split: if_splits)
qed

subsection \<open>The kind of a created container\<close>

lemma ensure_loop_Detached_root:
  "ensure_loop pth st (Detached v) index rb ks = Inr (ob', st') \<Longrightarrow> root st' = root st"
proof (induction ks arbitrary: st v index rb)
  case Nil
  then show ?case by auto
next
  case (Cons k ks)
  from Cons.prems obtain v1 st1 st2 ob1 st3 u rb' where
    g1: "get_prop st (Detached v) k = Inr (v1, st1)"
    and s2: "if v1 = Detached JUndefined then set_prop st1 (Detached v) k (next_container pth index) = Inr st2
             else st2 = st1"
    and g2: "get_prop st2 (Detached v) k = Inr (ob1, st3)"
    and rest: "ensure_loop pth (st3\<lparr>i_unused := u\<rparr>) ob1 (Suc index) rb' ks = Inr (ob', st')"
    by (rule ensure_loop_Cons_Inr)
  have "st2 = st1"
  proof (cases "v1 = Detached JUndefined")
    case True
    with s2 have "set_prop st1 (Detached v) k (next_container pth index) = Inr st2" by simp
    from set_prop_Inr [OF this] show ?thesis by auto
  next
    case False
    with s2 show ?thesis by simp
  qed
  with get_prop_root [OF g1] get_prop_root [OF g2] have r3: "root st3 = root st" by simp
  from get_prop_Detached [OF g2] obtain w where "ob1 = Detached w" by blast
  with rest have "ensure_loop pth (st3\<lparr>i_unused := u\<rparr>) (Detached w) (Suc index) rb' ks = Inr (ob', st')"
    by simp
  from Cons.IH [OF this] r3 show ?case by simp
qed

lemma set_prop_then_get:
  assumes s: "set_prop st (InView p) k n = Inr st2" and n: "is_container n"
  shows "node_at (root st2) (p @ [k]) = Some n
         \<and> (\<forall>r. node_at (root st2) (p @ k # r) = node_at n r)
         \<and> get_prop st2 (InView p) k = Inr (InView (p @ [k]), st2)"
proof -
  from set_prop_Inr [OF s] obtain c where
    c: "node_at (root st) p = Some c" "is_container c"
    and st2: "st2 = with_root st (upd_node p (put_prop k n) (root st))" by auto
  have rc: "is_container (root st)" by (simp add: root_def)
  have r2: "root st2 = upd_node p (put_prop k n) (root st)"
    unfolding st2 using c by (cases p) (auto simp: root_def with_root_def)
  have a: "node_at (root st2) (p @ k # r) = node_at n r" for r
    unfolding r2 using node_at_put [OF c, of k n k r] by simp
  from a [of "[]"] have b: "node_at (root st2) (p @ [k]) = Some n" by simp
  from get_prop_container [OF b n] a b show ?thesis by simp
qed

lemma node_at_empty_container:
  "is_container n \<Longrightarrow> props n = [] \<Longrightarrow> r \<noteq> [] \<Longrightarrow> node_at n r = None"
  by (cases r) auto

lemma next_container_props [simp]:
  "is_container (next_container pth index)" "props (next_container pth index) = []"
  by (simp_all add: next_container_def)

lemma ensure_loop_created:
  "ensure_loop pth st (InView p) index rb ks = Inr (ob', st') \<Longrightarrow> j < length ks \<Longrightarrow>
   node_at (root st) (p @ take (Suc j) ks) = None \<Longrightarrow>
   node_at (root st') (p @ take (Suc j) ks) = Some x \<Longrightarrow>
   is_container x
   \<and> is_array x = (Suc (index + j) < length pth \<and> js_isFinite (pth ! Suc (index + j)))"
proof (induction ks arbitrary: st p index rb j)
  case Nil
  then show ?case by simp
next
  case (Cons k ks)
  from Cons.prems(1) obtain v st1 st2 ob1 st3 u rb' where
    g1: "get_prop st (InView p) k = Inr (v, st1)"
    and s2: "if v = Detached JUndefined then set_prop st1 (InView p) k (next_container pth index) = Inr st2
             else st2 = st1"
    and g2: "get_prop st2 (InView p) k = Inr (ob1, st3)"
    and rest: "ensure_loop pth (st3\<lparr>i_unused := u\<rparr>) ob1 (Suc index) rb' ks = Inr (ob', st')"
    by (rule ensure_loop_Cons_Inr)
  note r1 = get_prop_root [OF g1]
  note r3 = get_prop_root [OF g2]
  show ?case
  proof (cases "v = Detached JUndefined")
    case True
    with s2 have sp: "set_prop st1 (InView p) k (next_container pth index) = Inr st2" by simp
    from set_prop_then_get [OF sp] have
      at2: "node_at (root st2) (p @ [k]) = Some (next_container pth index)"
      and below: "\<And>r. node_at (root st2) (p @ k # r) = node_at (next_container pth index) r"
      and gp: "get_prop st2 (InView p) k = Inr (InView (p @ [k]), st2)" by simp_all
    from g2 gp have ob1: "ob1 = InView (p @ [k])" "st3 = st2" by simp_all
    show ?thesis
    proof (cases j)
      case 0
      from at2 r3 have "node_at (root (st3\<lparr>i_unused := u\<rparr>)) (p @ [k]) = Some (next_container pth index)"
        by simp
      from ensure_loop_keeps_kind [OF rest this] Cons.prems(4) 0 show ?thesis
        by (auto simp: next_container_def split: if_splits)
    next
      case (Suc j')
      with Cons.prems(2) have j': "j' < length ks" by simp
      then have ne: "take (Suc j') ks \<noteq> []" by (cases ks) auto
      have "node_at (root st2) (p @ k # take (Suc j') ks) = None"
        using below [of "take (Suc j') ks"] node_at_empty_container [OF _ _ ne, of "next_container pth index"]
        by simp
      with ob1 have n: "node_at (root (st3\<lparr>i_unused := u\<rparr>)) ((p @ [k]) @ take (Suc j') ks) = None"
        by simp
      from Cons.prems(4) Suc have x: "node_at (root st') ((p @ [k]) @ take (Suc j') ks) = Some x"
        by simp
      from rest ob1 have "ensure_loop pth (st3\<lparr>i_unused := u\<rparr>) (InView (p @ [k])) (Suc index) rb' ks
                            = Inr (ob', st')" by simp
      from Cons.IH [OF this j' n x] Suc show ?thesis by simp
    qed
  next
    case False
    with s2 have st2: "st2 = st1" by simp
    with r1 r3 have root3: "root (st3\<lparr>i_unused := u\<rparr>) = root st" by simp
    show ?thesis
    proof (cases ob1)
      case (Detached w)
      with rest have "ensure_loop pth (st3\<lparr>i_unused := u\<rparr>) (Detached w) (Suc index) rb' ks = Inr (ob', st')"
        by simp
      from ensure_loop_Detached_root [OF this] root3 have "root st' = root st" by simp
      with Cons.prems(3,4) show ?thesis by simp
    next
      case (InView q)
      with g2 have "get_prop st2 (InView p) k = Inr (InView q, st3)" by simp
      from get_prop_InView [OF this] obtain m where
        q: "q = p @ [k]" and m: "node_at (root st2) (p @ [k]) = Some m" by blast
      from m st2 r1 have m0: "node_at (root st) (p @ [k]) = Some m" by simp
      show ?thesis
      proof (cases j)
        case 0
        with Cons.prems(3) m0 show ?thesis by simp
      next
        case (Suc j')
        with Cons.prems(2) have j': "j' < length ks" by simp
        from Cons.prems(3) Suc root3
        have n: "node_at (root (st3\<lparr>i_unused := u\<rparr>)) ((p @ [k]) @ take (Suc j') ks) = None" by simp
        from Cons.prems(4) Suc have x: "node_at (root st') ((p @ [k]) @ take (Suc j') ks) = Some x"
          by simp
        from rest InView q have "ensure_loop pth (st3\<lparr>i_unused := u\<rparr>) (InView (p @ [k])) (Suc index) rb' ks
                            = Inr (ob', st')" by simp
        from Cons.IH [OF this j' n x] Suc show ?thesis by simp
      qed
    qed
  qed
qed

lemma ensure_loop_exists:
  "ensure_loop pth st (InView p) index rb ks = Inr (InView q, st') \<Longrightarrow> j < length ks \<Longrightarrow>
   \<exists>x. node_at (root st') (p @ take (Suc j) ks) = Some x"
proof (induction ks arbitrary: st p index rb j)
  case Nil
  then show ?case by simp
next
  case (Cons k ks)
  from Cons.prems(1) obtain v st1 st2 ob1 st3 u rb' where
    g2: "get_prop st2 (InView p) k = Inr (ob1, st3)"
    and rest: "ensure_loop pth (st3\<lparr>i_unused := u\<rparr>) ob1 (Suc index) rb' ks = Inr (InView q, st')"
    by (rule ensure_loop_Cons_Inr)
  show ?case
  proof (cases ob1)
    case (Detached w)
    with rest ensure_loop_Detached show ?thesis by blast
  next
    case (InView q1)
    with g2 have "get_prop st2 (InView p) k = Inr (InView q1, st3)" by simp
    from get_prop_InView [OF this] obtain m where
      q1: "q1 = p @ [k]" and st3: "st3 = st2" and m: "node_at (root st2) (p @ [k]) = Some m" by blast
    from rest InView q1 have
      r: "ensure_loop pth (st3\<lparr>i_unused := u\<rparr>) (InView (p @ [k])) (Suc index) rb' ks = Inr (InView q, st')"
      by simp
    show ?thesis
    proof (cases j)
      case 0
      from m st3 have "node_at (root (st3\<lparr>i_unused := u\<rparr>)) (p @ [k]) = Some m" by simp
      from ensure_loop_keeps_kind [OF rest this] 0 show ?thesis by auto
    next
      case (Suc j')
      with Cons.prems(2) have "j' < length ks" by simp
      from Cons.IH [OF r this] Suc show ?thesis by simp
    qed
  qed
qed

text \<open>
  Claim C4, as the code has it. Let \<^verbatim>\<open>_ensurePathStructure\<close> walk the segments of a path
  before its leaf, and take any of these segments that is followed by another of them.
  If no node stood at its position before the call, then whatever stands there after the
  call is a container that the call created, and it is an array if and only if the global
  \<^verbatim>\<open>isFinite\<close> holds of the following segment (so \<^verbatim>\<open>"0"\<close> and \<^verbatim>\<open>"12"\<close>, and also
  \<^verbatim>\<open>"-1"\<close>, \<^verbatim>\<open>"1e3"\<close> and the empty segment, make an array), and an object otherwise.
  This holds at every such position, whether the parent was there before or was created
  by the same call. When the walk ends at a container of the view, such a container does
  stand at each of these positions. The container whose following segment is the leaf is
  not covered.
\<close>

theorem C4_created_container_kind:
  assumes "ensurePathStructure st (split_dot fieldName) = Inr ((ob, k), st')"
    and "Suc j < length (butlast (split_dot fieldName))"
    and "node_at (root st) (take (Suc j) (butlast (split_dot fieldName))) = None"
  shows "(\<forall>x. node_at (root st') (take (Suc j) (butlast (split_dot fieldName))) = Some x \<longrightarrow>
            is_container x \<and> (is_array x \<longleftrightarrow> js_isFinite (butlast (split_dot fieldName) ! Suc j)))
         \<and> ((\<exists>q. ob = InView q) \<longrightarrow>
            (\<exists>x. node_at (root st') (take (Suc j) (butlast (split_dot fieldName))) = Some x))"
proof -
  let ?ks = "butlast (split_dot fieldName)"
  from assms(1) have
    l: "ensure_loop ?ks st (InView []) 0 [] ?ks = Inr (ob, st')"
    by (auto simp: ensurePathStructure_def Let_def split: sum.splits)
  have j: "j < length ?ks" using assms(2) by simp
  have a: "is_container x \<and> (is_array x \<longleftrightarrow> js_isFinite (?ks ! Suc j))"
    if "node_at (root st') (take (Suc j) ?ks) = Some x" for x
    using ensure_loop_created [OF l j, of x] assms(2,3) that by simp
  have b: "\<exists>x. node_at (root st') (take (Suc j) ?ks) = Some x" if "ob = InView q" for q
    using ensure_loop_exists [OF l [unfolded that] j] by simp
  from a b show ?thesis by blast
qed

text \<open>
  The statement for the path \<^verbatim>\<open>a.b.0.c\<close> on a new instance, at the second segment:
  \<^verbatim>\<open>b\<close>, created inside the new container \<^verbatim>\<open>a\<close>, is an array.
\<close>

theorem C4_created_container_kind_witness:
  "ensurePathStructure new_odo (split_dot ''a.b.0.c'')
     = Inr ((InView [''a'', ''b'', ''0''], ''c''),
            snd (projr (ensurePathStructure new_odo (split_dot ''a.b.0.c''))))
   \<and> node_at (root new_odo) [''a'', ''b''] = None
   \<and> js_isFinite ''0''
   \<and> (\<exists>x. node_at (root (snd (projr (ensurePathStructure new_odo (split_dot ''a.b.0.c''))))) [''a'', ''b'']
              = Some x \<and> is_array x)"
proof -
  let ?st' = "snd (projr (ensurePathStructure new_odo (split_dot ''a.b.0.c'')))"
  have ks: "butlast (split_dot ''a.b.0.c'') = [''a'', ''b'', ''0'']" by simp
  have h1: "ensurePathStructure new_odo (split_dot ''a.b.0.c'')
              = Inr ((InView [''a'', ''b'', ''0''], ''c''), ?st')"
    by (simp add: odo_defs isFinite_defs)
  have h2: "Suc 1 < length (butlast (split_dot ''a.b.0.c''))" by simp
  have h3: "node_at (root new_odo) (take (Suc 1) (butlast (split_dot ''a.b.0.c''))) = None"
    by (simp add: root_def new_odo_def)
  have h3': "node_at (root new_odo) [''a'', ''b''] = None"
    by (simp add: root_def new_odo_def)
  have fin: "js_isFinite ''0''" by (simp add: isFinite_defs)
  have tk: "take (Suc 1) (butlast (split_dot ''a.b.0.c'')) = [''a'', ''b'']" by simp
  have nx: "butlast (split_dot ''a.b.0.c'') ! Suc 1 = ''0''" by simp
  note c = C4_created_container_kind [OF h1 h2 h3, unfolded tk nx]
  from c obtain x where x: "node_at (root ?st') [''a'', ''b''] = Some x" by blast
  with c fin have "is_array x" by blast
  with x h1 h3' fin show ?thesis by blast
qed

text \<open>
  Claim C4 as stated fails in both directions. For \<^verbatim>\<open>a.0\<close> the container \<^verbatim>\<open>a\<close> is an
  object although the following segment \<^verbatim>\<open>0\<close>, the leaf, consists of digits; for
  \<^verbatim>\<open>a.-1.b\<close> the container \<^verbatim>\<open>a\<close> is an array although \<^verbatim>\<open>-1\<close> does not consist of digits.
\<close>

theorem C4_counterexample:
  "and_then (addStructure new_odo [(''a.0'', RIndex 0)])
       (\<lambda>st. Inr (map_option is_array (node_at (root st) [''a''])))
     = Inr (Some False)
   \<and> list_all is_digit ''0''
   \<and> and_then (addStructure new_odo [(''a.-1.b'', RIndex 0)])
       (\<lambda>st. Inr (map_option is_array (node_at (root st) [''a''])))
     = Inr (Some True)
   \<and> \<not> list_all is_digit ''-1''"
  by (simp add: odo_defs isFinite_defs)

subsection \<open>Path resolution failure\<close>

lemma cursor_loop_Cons:
  "cursor_loop st cur (f # fs) =
     (case get_prop st (obj cur) f of
        Inl e \<Rightarrow> Inl e
      | Inr (v, st1) \<Rightarrow>
          if \<not> ref_truthy v then Inl (OdoError (error_message f (path cur)) cur f)
          else (case get_prop st1 (obj cur) f of
                  Inl e \<Rightarrow> Inl e
                | Inr (v', st2) \<Rightarrow> cursor_loop st2 (cur\<lparr>obj := v'\<rparr>) fs))"
  by simp






subsection \<open>Errors of the other methods\<close>






lemma delete_root: "\<exists>st'. delete_prop st (InView []) k = Inr st'"
  by (simp add: delete_prop_def root_def)

lemma remove_loop_strings:
  "list_all is_ustr us \<Longrightarrow> \<exists>st'. remove_loop st us = Inr st'"
proof (induction us arbitrary: st)
  case Nil
  then show ?case by simp
next
  case (Cons u us)
  then obtain s where u: "u = UStr s" by (cases u) auto
  from delete_root [of st s] obtain st1 where "delete_prop st (InView []) s = Inr st1" by blast
  with Cons u show ?case by simp
qed

subsection \<open>What the methods leave as it is\<close>

lemma add_entries_frame:
  "add_entries st es = Inr st' \<Longrightarrow>
   i_values st' = i_values st
   \<and> set (i_fields st') = set (i_fields st) \<union> fst ` set es
   \<and> accessor_paths st' \<subseteq> accessor_paths st \<union> split_dot ` fst ` set es
   \<and> set (i_unused st') \<subseteq> set (i_unused st)"
proof (induction es arbitrary: st)
  case Nil
  then show ?case by simp
next
  case (Cons e es)
  obtain fieldName rng where e: "e = (fieldName, rng)" by (cases e)
  from Cons.prems obtain ex st3 where
    v: "i_values st3 = i_values st"
    and f: "set (i_fields st3) = insert fieldName (set (i_fields st))"
    and a: "accessor_paths st3 \<subseteq> insert (split_dot fieldName) (accessor_paths st)"
    and u: "set (i_unused st3) \<subseteq> set (i_unused st)"
    and r: "add_entries st3 es = Inr st'"
    unfolding e by (rule add_entry_installs)
  from Cons.IH [OF r] v f a u show ?case unfolding e by auto
qed

lemma addStructure_frame:
  "addStructure st s = Inr st' \<Longrightarrow>
   i_values st' = i_values st
   \<and> set (i_fields st') = set (i_fields st) \<union> fst ` set s
   \<and> accessor_paths st' \<subseteq> accessor_paths st \<union> split_dot ` fst ` set s
   \<and> set (i_unused st') \<subseteq> set (i_unused st)"
  using add_entries_frame [of st "sort_entries s" st']
  by (simp add: addStructure_def sort_entries_def)

lemma cursor_loop_Inr:
  "cursor_loop st cur fs = Inr (cur', st') \<Longrightarrow>
   key cur' = key cur \<and> path cur' = path cur \<and> root st' = root st
   \<and> i_values st' = i_values st \<and> i_fields st' = i_fields st \<and> i_unused st' = i_unused st"
proof (induction fs arbitrary: st cur)
  case Nil
  then show ?case by simp
next
  case (Cons f fs)
  note p = Cons.prems [unfolded cursor_loop_Cons]
  from p obtain v st1 where g1: "get_prop st (obj cur) f = Inr (v, st1)"
    by (cases "get_prop st (obj cur) f") auto
  with p have t: "ref_truthy v" by (auto split: if_splits)
  with p g1 obtain v' st2 where g2: "get_prop st1 (obj cur) f = Inr (v', st2)"
    by (cases "get_prop st1 (obj cur) f") auto
  with p g1 t have "cursor_loop st2 (cur\<lparr>obj := v'\<rparr>) fs = Inr (cur', st')" by simp
  from Cons.IH [OF this] get_prop_root [OF g1] get_prop_root [OF g2]
    get_prop_frame [OF g1] get_prop_frame [OF g2]
  show ?case by simp
qed

lemma cursor_loop_Detached:
  "cursor_loop st cur fs = Inr (cur', st') \<Longrightarrow> obj cur = Detached v \<Longrightarrow>
   \<exists>w. obj cur' = Detached w"
proof (induction fs arbitrary: st cur v)
  case Nil
  then show ?case by auto
next
  case (Cons f fs)
  note p = Cons.prems(1) [unfolded cursor_loop_Cons]
  from p obtain v1 st1 where g1: "get_prop st (obj cur) f = Inr (v1, st1)"
    by (cases "get_prop st (obj cur) f") auto
  with p have t: "ref_truthy v1" by (auto split: if_splits)
  with p g1 obtain v' st2 where g2: "get_prop st1 (obj cur) f = Inr (v', st2)"
    by (cases "get_prop st1 (obj cur) f") auto
  with p g1 t have l: "cursor_loop st2 (cur\<lparr>obj := v'\<rparr>) fs = Inr (cur', st')" by simp
  from g2 Cons.prems(2) get_prop_Detached obtain w where "v' = Detached w" by metis
  then have "obj (cur\<lparr>obj := v'\<rparr>) = Detached w" by simp
  from Cons.IH [OF l this] show ?case .
qed

lemma node_at_below_missing:
  assumes "node_at n p = Some c"
    and "map_of (props c) k = None \<or> (\<exists>g. map_of (props c) k = Some (NGetter g))"
    and "r \<noteq> []"
  shows "node_at n (p @ k # r) = None"
proof -
  have "node_at n (p @ k # r) = node_at c (k # r)"
    using assms(1) by (simp add: node_at_append)
  also have "\<dots> = None"
    using assms(2,3) by (cases r) auto
  finally show ?thesis .
qed

lemma cursor_loop_ref:
  "cursor_loop st cur fs = Inr (cur', st') \<Longrightarrow> obj cur = InView p \<Longrightarrow>
   obj cur' = InView (p @ fs)
   \<or> ((\<exists>v. obj cur' = Detached v) \<and> (\<forall>r. r \<noteq> [] \<longrightarrow> node_at (root st) (p @ fs @ r) = None))"
proof (induction fs arbitrary: st cur p)
  case Nil
  then show ?case by simp
next
  case (Cons f fs)
  note p = Cons.prems(1) [unfolded cursor_loop_Cons]
  from p obtain v1 st1 where g1: "get_prop st (obj cur) f = Inr (v1, st1)"
    by (cases "get_prop st (obj cur) f") auto
  with p have t: "ref_truthy v1" by (auto split: if_splits)
  with p g1 obtain v' st2 where g2: "get_prop st1 (obj cur) f = Inr (v', st2)"
    by (cases "get_prop st1 (obj cur) f") auto
  with p g1 t have l: "cursor_loop st2 (cur\<lparr>obj := v'\<rparr>) fs = Inr (cur', st')" by simp
  note r1 = get_prop_root [OF g1]
  note r2 = get_prop_root [OF g2]
  show ?case
  proof (cases v')
    case (InView q)
    with g2 Cons.prems(2) have q: "q = p @ [f]" using get_prop_InView by metis
    with InView have "obj (cur\<lparr>obj := v'\<rparr>) = InView (p @ [f])" by simp
    from Cons.IH [OF l this] r1 r2 show ?thesis by simp
  next
    case (Detached w)
    then have "obj (cur\<lparr>obj := v'\<rparr>) = Detached w" by simp
    from cursor_loop_Detached [OF l this] obtain w' where w': "obj cur' = Detached w'" by blast
    from g2 Detached Cons.prems(2)
    have "get_prop st1 (InView p) f = Inr (Detached w, st2)" by simp
    from get_prop_Detached_result [OF this] r1 obtain c where
      c: "node_at (root st) p = Some c"
      "map_of (props c) f = None \<or> (\<exists>g. map_of (props c) f = Some (NGetter g))" by auto
    have "\<forall>r. r \<noteq> [] \<longrightarrow> node_at (root st) (p @ (f # fs) @ r) = None"
    proof (intro allI impI)
      fix r :: "string list" assume "r \<noteq> []"
      then have "fs @ r \<noteq> []" by simp
      from node_at_below_missing [OF c this] show "node_at (root st) (p @ (f # fs) @ r) = None"
        by simp
    qed
    with w' show ?thesis by blast
  qed
qed

lemma getCursor_Inr:
  assumes "getCursorToEndOfPath st pth = Inr (cur, st')"
  shows "key cur = pop_key pth \<and> path cur = butlast pth \<and> root st' = root st
         \<and> i_values st' = i_values st \<and> i_fields st' = i_fields st
         \<and> i_unused st' = i_unused st
         \<and> (obj cur = InView (butlast pth)
             \<or> ((\<exists>v. obj cur = Detached v)
                 \<and> (\<forall>r. r \<noteq> [] \<longrightarrow> node_at (root st) (butlast pth @ r) = None)))"
proof -
  let ?c = "\<lparr>obj = InView [], key = pop_key pth, path = butlast pth\<rparr>"
  from assms have l: "cursor_loop st ?c (butlast pth) = Inr (cur, st')"
    by (simp add: getCursorToEndOfPath_def Let_def)
  from cursor_loop_Inr [OF l] cursor_loop_ref [OF l, of "[]"] show ?thesis by simp
qed

lemma accessor_paths_root: "root st' = root st \<Longrightarrow> accessor_paths st' = accessor_paths st"
  by (simp add: accessor_paths_def)

lemma reset_loop_path:
  "CHR ''.'' \<in> set f \<Longrightarrow>
   reset_loop st (f # fs) =
     (case getCursorToEndOfPath st (split_dot f) of
        Inl e \<Rightarrow> Inl e
      | Inr (cur, st1) \<Rightarrow>
          (case delete_prop (st1\<lparr>i_unused := set_add (UStr (join ''.'' (path cur))) (i_unused st1)\<rparr>)
                  (obj cur) (key cur) of
             Inl e \<Rightarrow> Inl e
           | Inr st3 \<Rightarrow> reset_loop st3 fs))"
  by (simp add: Let_def split: sum.splits prod.splits)

lemma reset_loop_top:
  "CHR ''.'' \<notin> set f \<Longrightarrow>
   reset_loop st (f # fs) =
     (case delete_prop st (InView []) f of
        Inl e \<Rightarrow> Inl e
      | Inr st1 \<Rightarrow> reset_loop st1 fs)"
  by (simp add: Let_def)

lemma reset_loop_frame:
  "reset_loop st fs = Inr st' \<Longrightarrow>
   i_values st' = i_values st \<and> i_fields st' = i_fields st
   \<and> accessor_paths st' \<subseteq> accessor_paths st - split_dot ` set fs
   \<and> set (i_unused st') = set (i_unused st) \<union> unused_mark ` {f \<in> set fs. CHR ''.'' \<in> set f}"
proof (induction fs arbitrary: st)
  case Nil
  then show ?case by simp
next
  case (Cons f fs)
  show ?case
  proof (cases "CHR ''.'' \<in> set f")
    case True
    note p = Cons.prems [unfolded reset_loop_path [OF True]]
    from p obtain cur st1 where
      g: "getCursorToEndOfPath st (split_dot f) = Inr (cur, st1)"
      by (cases "getCursorToEndOfPath st (split_dot f)") auto
    let ?st2 = "st1\<lparr>i_unused := set_add (UStr (join ''.'' (path cur))) (i_unused st1)\<rparr>"
    from p g obtain st3 where
      d: "delete_prop ?st2 (obj cur) (key cur) = Inr st3"
      by (cases "delete_prop ?st2 (obj cur) (key cur)") auto
    with p g have r: "reset_loop st3 fs = Inr st'" by simp
    note gc = getCursor_Inr [OF g]
    note dp = accessor_paths_delete_prop [OF d] delete_prop_frame [OF d]
    have "root ?st2 = root st" using gc by simp
    then have a2: "accessor_paths ?st2 = accessor_paths st" by (rule accessor_paths_root)
    have notin: "split_dot f \<notin> accessor_paths st3"
    proof (cases "obj cur")
      case (InView p)
      with gc have "p = butlast (split_dot f)" by auto
      moreover from dp InView have "p @ [key cur] \<notin> accessor_paths st3" by blast
      moreover from gc have "key cur = pop_key (split_dot f)" by simp
      ultimately show ?thesis using split_dot_last [of f] by simp
    next
      case (Detached v)
      with gc have "\<forall>r. r \<noteq> [] \<longrightarrow> node_at (root st) (butlast (split_dot f) @ r) = None" by auto
      then have "node_at (root st) (butlast (split_dot f) @ [pop_key (split_dot f)]) = None"
        by blast
      then have "split_dot f \<notin> accessor_paths st"
        by (simp add: split_dot_last accessor_paths_def)
      moreover from dp a2 have "accessor_paths st3 \<subseteq> accessor_paths st" by simp
      ultimately show ?thesis by blast
    qed
    have "i_unused st3 = set_add (UStr (join ''.'' (path cur))) (i_unused st1)"
      using dp by simp
    moreover have "path cur = butlast (split_dot f)" "i_unused st1 = i_unused st"
      using gc by simp_all
    ultimately have u3: "set (i_unused st3) = insert (unused_mark f) (set (i_unused st))"
      by (auto simp: set_add_def unused_mark_def)
    have f3: "i_values st3 = i_values st" "i_fields st3 = i_fields st"
      using dp gc by simp_all
    have a3: "accessor_paths st3 \<subseteq> accessor_paths st" using dp a2 by simp
    note ih = Cons.IH [OF r]
    have 1: "i_values st' = i_values st \<and> i_fields st' = i_fields st" using ih f3 by simp
    have 2: "accessor_paths st' \<subseteq> accessor_paths st - split_dot ` set (f # fs)"
      using ih a3 notin by auto
    have "{g \<in> set (f # fs). CHR ''.'' \<in> set g} = insert f {g \<in> set fs. CHR ''.'' \<in> set g}"
      using True by auto
    then have 3: "set (i_unused st') = set (i_unused st)
                    \<union> unused_mark ` {g \<in> set (f # fs). CHR ''.'' \<in> set g}"
      using ih u3 by simp
    from 1 2 3 show ?thesis by blast
  next
    case False
    note p = Cons.prems [unfolded reset_loop_top [OF False]]
    from p obtain st1 where
      d: "delete_prop st (InView []) f = Inr st1"
      by (cases "delete_prop st (InView []) f") auto
    with p have r: "reset_loop st1 fs = Inr st'" by simp
    note dp = accessor_paths_delete_prop [OF d] delete_prop_frame [OF d]
    have notin: "split_dot f \<notin> accessor_paths st1"
      using dp False by (simp add: split_dot_nodot)
    note ih = Cons.IH [OF r]
    have 1: "i_values st' = i_values st \<and> i_fields st' = i_fields st" using ih dp by simp
    have 2: "accessor_paths st' \<subseteq> accessor_paths st - split_dot ` set (f # fs)"
      using ih dp notin by auto
    have "{g \<in> set (f # fs). CHR ''.'' \<in> set g} = {g \<in> set fs. CHR ''.'' \<in> set g}"
      using False by auto
    then have 3: "set (i_unused st') = set (i_unused st)
                    \<union> unused_mark ` {g \<in> set (f # fs). CHR ''.'' \<in> set g}"
      using ih dp by simp
    from 1 2 3 show ?thesis by blast
  qed
qed

lemma resetStructure_frame:
  assumes "resetStructure st = Inr st'"
  shows "i_values st' = i_values st \<and> i_fields st' = []
         \<and> accessor_paths st' \<subseteq> accessor_paths st - split_dot ` set (i_fields st)
         \<and> set (i_unused st') = unused_mark ` {f \<in> set (i_fields st). CHR ''.'' \<in> set f}"
proof -
  let ?st0 = "st\<lparr>i_unused := [], i_cached := Map.empty\<rparr>"
  from assms obtain st1 where l: "reset_loop ?st0 (i_fields st) = Inr st1"
    and st': "st' = st1\<lparr>i_fields := []\<rparr>"
    by (auto simp: resetStructure_def split: sum.splits)
  from reset_loop_frame [OF l] st' show ?thesis by simp
qed

lemma remove_loop_frame:
  "remove_loop st us = Inr st' \<Longrightarrow>
   i_values st' = i_values st \<and> i_fields st' = i_fields st
   \<and> accessor_paths st' \<subseteq> accessor_paths st"
proof (induction us arbitrary: st)
  case Nil
  then show ?case by simp
next
  case (Cons u us)
  show ?case
  proof (cases u)
    case (UStr s)
    from Cons.prems UStr obtain st1 where
      d: "delete_prop st (InView []) s = Inr st1"
      by (cases "delete_prop st (InView []) s") auto
    with Cons.prems UStr have r: "remove_loop st1 us = Inr st'" by simp
    from Cons.IH [OF r] accessor_paths_delete_prop [OF d] delete_prop_frame [OF d]
    show ?thesis by auto
  next
    case (UArr p)
    from Cons.prems UArr obtain cur st1 where
      g: "getCursorToEndOfPath st p = Inr (cur, st1)"
      by (cases "getCursorToEndOfPath st p") auto
    from Cons.prems UArr g obtain st2 where
      d: "delete_prop st1 (obj cur) (key cur) = Inr st2"
      by (cases "delete_prop st1 (obj cur) (key cur)") auto
    with Cons.prems UArr g have r: "remove_loop st2 us = Inr st'" by simp
    have "root st1 = root st" using getCursor_Inr [OF g] by simp
    then have "accessor_paths st1 = accessor_paths st" by (rule accessor_paths_root)
    with Cons.IH [OF r] accessor_paths_delete_prop [OF d] delete_prop_frame [OF d]
      getCursor_Inr [OF g]
    show ?thesis by auto
  qed
qed

lemma removeUnusedStructure_frame:
  assumes "removeUnusedStructure st = Inr st'"
  shows "i_values st' = i_values st \<and> i_fields st' = i_fields st \<and> i_unused st' = []
         \<and> accessor_paths st' \<subseteq> accessor_paths st"
proof -
  from assms obtain st1 where l: "remove_loop st (i_unused st) = Inr st1"
    and st': "st' = st1\<lparr>i_unused := []\<rparr>"
    by (auto simp: removeUnusedStructure_def split: sum.splits)
  from remove_loop_frame [OF l] st' show ?thesis by simp
qed

lemma read_path_frame:
  "read_path st ob ks = Inr (v, st') \<Longrightarrow>
   view st' = view st \<and> i_values st' = i_values st \<and> i_fields st' = i_fields st
   \<and> i_unused st' = i_unused st"
proof (induction ks arbitrary: st ob)
  case Nil
  then show ?case by simp
next
  case (Cons k ks)
  from Cons.prems obtain v1 st1 where g: "get_prop st ob k = Inr (v1, st1)"
    by (cases "get_prop st ob k") auto
  with Cons.prems have "read_path st1 v1 ks = Inr (v, st')" by simp
  from Cons.IH [OF this] get_prop_frame [OF g] show ?case by simp
qed

lemma export_frame:
  "view (snd (export st)) = view st \<and> i_values (snd (export st)) = i_values st
   \<and> i_fields (snd (export st)) = i_fields st \<and> i_unused (snd (export st)) = i_unused st"
  by (simp add: export_def split: prod.splits)

subsection \<open>Invariants of an instance\<close>

text \<open>
  In every state an instance reaches by calls that return, each accessor of the view
  stands at the path of a registered field, and the unused set holds strings only.
\<close>

lemma accessor_paths_view: "view st' = view st \<Longrightarrow> accessor_paths st' = accessor_paths st"
  by (simp add: accessor_paths_def root_def)

lemma list_all_ustr_subset:
  "set us' \<subseteq> set us \<Longrightarrow> list_all is_ustr us \<Longrightarrow> list_all is_ustr us'"
  unfolding list_all_iff by blast

lemma list_all_ustr_marks:
  assumes "set us = unused_mark ` A"
  shows "list_all is_ustr us"
proof -
  have "is_ustr x" if "x \<in> set us" for x
  proof -
    from that assms have "x \<in> unused_mark ` A" by simp
    then obtain f where "x = unused_mark f" by blast
    then show ?thesis by (simp add: unused_mark_def)
  qed
  then show ?thesis unfolding list_all_iff by blast
qed

lemma addStructure_invariant:
  assumes "addStructure st s = Inr st'"
    and "accessor_paths st \<subseteq> split_dot ` set (i_fields st)" "list_all is_ustr (i_unused st)"
  shows "accessor_paths st' \<subseteq> split_dot ` set (i_fields st') \<and> list_all is_ustr (i_unused st')"
proof -
  note f = addStructure_frame [OF assms(1)]
  from f have fl: "set (i_fields st') = set (i_fields st) \<union> fst ` set s" by (elim conjE)
  from f have ap: "accessor_paths st' \<subseteq> accessor_paths st \<union> split_dot ` fst ` set s"
    by (elim conjE)
  from f have un: "set (i_unused st') \<subseteq> set (i_unused st)" by (elim conjE)
  have "split_dot ` set (i_fields st') = split_dot ` set (i_fields st) \<union> split_dot ` fst ` set s"
    unfolding fl by (rule image_Un)
  with ap assms(2) have "accessor_paths st' \<subseteq> split_dot ` set (i_fields st')" by blast
  moreover have "list_all is_ustr (i_unused st')"
    using un assms(3) by (rule list_all_ustr_subset)
  ultimately show ?thesis by (rule conjI)
qed

lemma resetStructure_invariant:
  assumes "resetStructure st = Inr st'"
    and "accessor_paths st \<subseteq> split_dot ` set (i_fields st)"
  shows "accessor_paths st' = {} \<and> i_fields st' = [] \<and> list_all is_ustr (i_unused st')"
proof -
  note f = resetStructure_frame [OF assms(1)]
  from f have ap: "accessor_paths st' \<subseteq> accessor_paths st - split_dot ` set (i_fields st)"
    by (elim conjE)
  from f have un: "set (i_unused st') = unused_mark ` {f \<in> set (i_fields st). CHR ''.'' \<in> set f}"
    by (elim conjE)
  from f have fl: "i_fields st' = []" by (elim conjE)
  from ap assms(2) have "accessor_paths st' = {}" by blast
  moreover from un have "list_all is_ustr (i_unused st')" by (rule list_all_ustr_marks)
  ultimately show ?thesis using fl by (intro conjI)
qed

lemma removeUnusedStructure_invariant:
  assumes "removeUnusedStructure st = Inr st'"
    and "accessor_paths st \<subseteq> split_dot ` set (i_fields st)"
  shows "accessor_paths st' \<subseteq> split_dot ` set (i_fields st') \<and> list_all is_ustr (i_unused st')"
proof -
  note f = removeUnusedStructure_frame [OF assms(1)]
  from f have ap: "accessor_paths st' \<subseteq> accessor_paths st" by (elim conjE)
  from f have fl: "i_fields st' = i_fields st" by (elim conjE)
  from f have un: "i_unused st' = []" by (elim conjE)
  from ap assms(2) have "accessor_paths st' \<subseteq> split_dot ` set (i_fields st')"
    unfolding fl by (rule subset_trans)
  moreover have "list_all is_ustr (i_unused st')" unfolding un by simp
  ultimately show ?thesis by (rule conjI)
qed

lemma run_op_invariant:
  assumes "run_op st x = Inr st'"
    and a: "accessor_paths st \<subseteq> split_dot ` set (i_fields st)"
    and u: "list_all is_ustr (i_unused st)"
  shows "accessor_paths st' \<subseteq> split_dot ` set (i_fields st') \<and> list_all is_ustr (i_unused st')"
proof (cases x)
  case (SetValues vs)
  with assms(1) have st': "st' = setValues st vs" by simp
  have "view st' = view st" "i_fields st' = i_fields st" "i_unused st' = i_unused st"
    unfolding st' by (simp_all add: setValues_def)
  with a u accessor_paths_view [of st' st] show ?thesis by simp
next
  case (AddStructure s)
  with assms(1) have "addStructure st s = Inr st'" by simp
  from addStructure_invariant [OF this a u] show ?thesis .
next
  case ResetStructure
  with assms(1) have "resetStructure st = Inr st'" by simp
  from resetStructure_invariant [OF this a] show ?thesis by simp
next
  case (SetStructure s)
  with assms(1) obtain st1 st2 where
    1: "resetStructure st = Inr st1" and 2: "addStructure st1 s = Inr st2"
    and 3: "removeUnusedStructure st2 = Inr st'"
    by (auto simp: setStructure_def split: sum.splits)
  from resetStructure_invariant [OF 1 a]
  have i1: "accessor_paths st1 \<subseteq> split_dot ` set (i_fields st1)" "list_all is_ustr (i_unused st1)"
    by simp_all
  from addStructure_invariant [OF 2 i1]
  have i2: "accessor_paths st2 \<subseteq> split_dot ` set (i_fields st2)" by simp
  from removeUnusedStructure_invariant [OF 3 i2] show ?thesis .
next
  case RemoveUnusedStructure
  with assms(1) have "removeUnusedStructure st = Inr st'" by simp
  from removeUnusedStructure_invariant [OF this a] show ?thesis .
next
  case (ReadField fieldName)
  with assms(1) obtain v where "read_path st (InView []) (split_dot fieldName) = Inr (v, st')"
    by (auto simp: read_field_def split: sum.splits)
  from read_path_frame [OF this] a u accessor_paths_view [of st' st] show ?thesis by simp
next
  case Export
  with assms(1) have st': "st' = snd (export st)" by simp
  from export_frame [of st] a u accessor_paths_view [of st' st] show ?thesis
    unfolding st' by simp
qed

lemma run_ops_Cons_Inr:
  assumes "run_ops st (x # xs) = Inr st'"
  shows "\<exists>st1. run_op st x = Inr st1 \<and> run_ops st1 xs = Inr st'"
proof (cases "run_op st x")
  case (Inl e)
  have "run_ops st (x # xs) = Inl e" by (simp only: run_ops.simps Inl sum.case)
  with assms show ?thesis by simp
next
  case (Inr st1)
  have "run_ops st (x # xs) = run_ops st1 xs" by (simp only: run_ops.simps Inr sum.case)
  with assms Inr show ?thesis by simp
qed

lemma run_ops_invariant:
  "run_ops st xs = Inr st' \<Longrightarrow>
   accessor_paths st \<subseteq> split_dot ` set (i_fields st) \<Longrightarrow> list_all is_ustr (i_unused st) \<Longrightarrow>
   accessor_paths st' \<subseteq> split_dot ` set (i_fields st') \<and> list_all is_ustr (i_unused st')"
proof (induction xs arbitrary: st)
  case Nil
  then show ?case by simp
next
  case (Cons x xs)
  from run_ops_Cons_Inr [OF Cons.prems(1)]
  obtain st1 where 1: "run_op st x = Inr st1" and 2: "run_ops st1 xs = Inr st'" by blast
  note i = run_op_invariant [OF 1 Cons.prems(2,3)]
  show ?case by (rule Cons.IH [OF 2 i [THEN conjunct1] i [THEN conjunct2]])
qed

lemma accessor_paths_new_odo: "accessor_paths new_odo = {}"
proof -
  have r: "root new_odo = NObj []" by (simp add: root_def new_odo_def)
  have "q \<notin> accessor_paths new_odo" for q
  proof
    assume "q \<in> accessor_paths new_odo"
    then obtain g where "node_at (root new_odo) q = Some (NGetter g)"
      unfolding accessor_paths_def by blast
    with r node_at_empty_obj [of q g] show False by simp
  qed
  then show ?thesis by blast
qed

lemma new_odo_invariant:
  "accessor_paths new_odo \<subseteq> split_dot ` set (i_fields new_odo)"
  "list_all is_ustr (i_unused new_odo)"
proof -
  show "accessor_paths new_odo \<subseteq> split_dot ` set (i_fields new_odo)"
    unfolding accessor_paths_new_odo by (rule empty_subsetI)
  show "list_all is_ustr (i_unused new_odo)" by (simp add: new_odo_def)
qed

lemma reachable_invariant:
  "run_ops new_odo xs = Inr st \<Longrightarrow>
   accessor_paths st \<subseteq> split_dot ` set (i_fields st) \<and> list_all is_ustr (i_unused st)"
  by (rule run_ops_invariant [OF _ new_odo_invariant])

subsection \<open>Which method raises the path resolution failure\<close>







lemma removeUnusedStructure_returns:
  assumes "run_ops new_odo xs = Inr st"
  shows "\<exists>st'. removeUnusedStructure st = Inr st'"
proof -
  from reachable_invariant [OF assms] have "list_all is_ustr (i_unused st)" by simp
  from remove_loop_strings [OF this, of st] obtain st1 where
    "remove_loop st (i_unused st) = Inr st1" by blast
  then show ?thesis by (simp add: removeUnusedStructure_def)
qed




end
